theory Spec2Isabelle
  imports Main "HOL-Library.AList"
begin

section \<open>Path resolution and access control (src/utils/path.ts)\<close>

text \<open>
  JavaScript strings are modelled as \<^typ>\<open>string\<close> (lists of 8-bit characters), so the
  model covers strings whose code units are below 256. Everything the code asks of the
  Node.js runtime (the platform, the process environment, the home directory, the file
  system probes and the functions of the \<^verbatim>\<open>path\<close> module) is a field of the record
  \<open>host\<close>: the functions of this file take the host as their first argument.

  Three calls of the runtime can throw on a string. \<^verbatim>\<open>fs.realpathSync.native\<close> throws
  when it cannot resolve its argument: the field \<open>realpath\<close> is \<open>None\<close> there.
  \<^verbatim>\<open>os.homedir()\<close> throws when no home directory can be found: the field \<open>homedir\<close> is
  \<open>None\<close> then. \<^verbatim>\<open>path.resolve\<close> asks for \<^verbatim>\<open>process.cwd()\<close> when none of its arguments
  is absolute, and that throws when the working directory is gone: the field
  \<open>path_resolve\<close> returns \<open>None\<close> there. \<^verbatim>\<open>fs.existsSync\<close> and the other functions of
  \<^verbatim>\<open>path\<close> do not throw on strings.
\<close>

subsection \<open>The runtime\<close>

record host =
  win32 :: bool
  environ :: "(string \<times> string) list"
  homedir :: "string option"
  realpath :: "string \<Rightarrow> string option"
  existsSync :: "string \<Rightarrow> bool"
  path_sep :: string
  path_isAbsolute :: "string \<Rightarrow> bool"
  path_normalize :: "string \<Rightarrow> string"
  path_resolve :: "string list \<Rightarrow> string option"
  path_join :: "string list \<Rightarrow> string"
  path_dirname :: "string \<Rightarrow> string"
  path_basename :: "string \<Rightarrow> string"

subsection \<open>Outcomes of a call\<close>

text \<open>
  A call returns a value, or an exception reaches its caller, or it does not return.
  The source has one loop that may run forever (in \<^verbatim>\<open>resolveRealPath\<close>) and catches the
  exceptions of the realpath probe only, so the two exceptions that can reach a caller are
  those of \<^verbatim>\<open>os.homedir()\<close> and \<^verbatim>\<open>process.cwd()\<close>.
\<close>

datatype error = HomedirError | CwdError

datatype 'a outcome = Returns 'a | Raises error | Hangs

fun andThen :: "'a outcome \<Rightarrow> ('a \<Rightarrow> 'b outcome) \<Rightarrow> 'b outcome" where
  "andThen (Returns x) f = f x"
| "andThen (Raises e) f = Raises e"
| "andThen Hangs f = Hangs"

definition mapOutcome :: "('a \<Rightarrow> 'b) \<Rightarrow> 'a outcome \<Rightarrow> 'b outcome" where
  "mapOutcome f r = andThen r (\<lambda>x. Returns (f x))"

subsection \<open>String primitives\<close>

definition bslash :: char where
  "bslash = CHR 0x5C"

primrec startsWith :: "string \<Rightarrow> string \<Rightarrow> bool" where
  "startsWith s [] = True"
| "startsWith s (p # ps) = (case s of [] \<Rightarrow> False | c # cs \<Rightarrow> c = p \<and> startsWith cs ps)"

definition isUpperAZ :: "char \<Rightarrow> bool" where
  "isUpperAZ c = (let n = (of_char c :: nat) in 65 \<le> n \<and> n \<le> 90)"

definition isLowerAZ :: "char \<Rightarrow> bool" where
  "isLowerAZ c = (let n = (of_char c :: nat) in 97 \<le> n \<and> n \<le> 122)"

definition isDigit :: "char \<Rightarrow> bool" where
  "isDigit c = (let n = (of_char c :: nat) in 48 \<le> n \<and> n \<le> 57)"


text \<open>
  \<^verbatim>\<open>toLowerCase\<close> on code units below 256: the letters A to Z and the Latin-1 capitals
  U+00C0 to U+00DE (but not the sign U+00D7) move up by 32; every other unit is kept.
\<close>

definition lowerChar :: "char \<Rightarrow> char" where
  "lowerChar c =
     (let n = (of_char c :: nat)
      in if (65 \<le> n \<and> n \<le> 90) \<or> (192 \<le> n \<and> n \<le> 222 \<and> n \<noteq> 215) then char_of (n + 32) else c)"

definition toLowerCase :: "string \<Rightarrow> string" where
  "toLowerCase s = map lowerChar s"

text \<open>
  \<^verbatim>\<open>toUpperCase\<close>: the letters a to z and the Latin-1 small letters U+00E0 to U+00FE (but
  not the sign U+00F7) move down by 32, and U+00DF becomes \<open>SS\<close>. The upper case of U+00B5
  and of U+00FF lies beyond 255; these two units are kept. The code upper-cases the names
  that its expressions capture and the drive letter only, which are ASCII.
\<close>

definition upperChar :: "char \<Rightarrow> char" where
  "upperChar c =
     (let n = (of_char c :: nat)
      in if (97 \<le> n \<and> n \<le> 122) \<or> (224 \<le> n \<and> n \<le> 254 \<and> n \<noteq> 247) then char_of (n - 32) else c)"

definition toUpperCase :: "string \<Rightarrow> string" where
  "toUpperCase s = concat (map (\<lambda>c. if c = CHR 0xDF then ''SS'' else [upperChar c]) s)"

text \<open>
  \<^verbatim>\<open>String.prototype.trim\<close>: the white space and line terminators among the code units
  below 256 are TAB, LF, VT, FF, CR, SPACE and NBSP.
\<close>

definition isWhiteSpace :: "char \<Rightarrow> bool" where
  "isWhiteSpace c = (of_char c \<in> {9, 10, 11, 12, 13, 32, 160 :: nat})"

definition trim :: "string \<Rightarrow> string" where
  "trim s = rev (dropWhile isWhiteSpace (rev (dropWhile isWhiteSpace s)))"

subsection \<open>Environment lookup\<close>

text \<open>
  \<^verbatim>\<open>getEnvValue\<close>: an exact key first; on Windows then the upper-cased key, the
  lower-cased key and the first key of the environment equal to it up to case.
\<close>

definition getEnvValue :: "host \<Rightarrow> string \<Rightarrow> string option" where
  "getEnvValue h key =
     (case map_of (environ h) key of
        Some v \<Rightarrow> Some v
      | None \<Rightarrow>
          if \<not> win32 h then None
          else (case map_of (environ h) (toUpperCase key) of
                  Some v \<Rightarrow> Some v
                | None \<Rightarrow>
                    (case map_of (environ h) (toLowerCase key) of
                       Some v \<Rightarrow> Some v
                     | None \<Rightarrow>
                         (case find (\<lambda>name. toLowerCase name = toLowerCase key)
                                 (map fst (environ h)) of
                            None \<Rightarrow> None
                          | Some matchKey \<Rightarrow>
                              if matchKey = [] then None
                              else map_of (environ h) matchKey))))"

subsection \<open>Global regular-expression replacement\<close>

text \<open>
  \<^verbatim>\<open>value.replace(/re/g, fn)\<close> scans the string from the left. Where the expression
  matches, the match is replaced by the result of the callback and the scan goes on behind
  the match (the replacement is not scanned again); elsewhere the character is kept. A
  matcher returns the replacement and the number of characters the match takes after its
  first one (none of the expressions below matches the empty string).
\<close>

fun gsub :: "(string \<Rightarrow> (string \<times> nat) option) \<Rightarrow> string \<Rightarrow> string" where
  "gsub m [] = []"
| "gsub m (c # cs) =
     (case m (c # cs) of
        Some (rep, k) \<Rightarrow> rep @ gsub m (drop k cs)
      | None \<Rightarrow> c # gsub m cs)"

text \<open>The character classes \<^verbatim>\<open>[A-Za-z_]\<close>, \<^verbatim>\<open>[A-Za-z0-9_]\<close> and \<^verbatim>\<open>[A-Za-z0-9_()]\<close>.\<close>

definition isNameStart :: "char \<Rightarrow> bool" where
  "isNameStart c = (isUpperAZ c \<or> isLowerAZ c \<or> c = CHR ''_'')"

definition isNameChar :: "char \<Rightarrow> bool" where
  "isNameChar c = (isNameStart c \<or> isDigit c)"

definition isParenNameChar :: "char \<Rightarrow> bool" where
  "isParenNameChar c = (isNameChar c \<or> c = CHR ''('' \<or> c = CHR '')'')"

text \<open>
  The callback shared by the four replacements: the value of the variable when it is
  defined, the matched text otherwise. An expression is modelled by the function that
  tells, for a string, whether the expression matches at its start, and then gives the
  captured name and the number of characters the match takes after its first one (none of
  the expressions matches the empty string); \<open>withCallback\<close> turns it into the matcher
  that \<^const>\<open>gsub\<close> takes.
\<close>

definition substitute :: "host \<Rightarrow> string \<Rightarrow> string \<Rightarrow> string" where
  "substitute h matched name =
     (case getEnvValue h name of Some envValue \<Rightarrow> envValue | None \<Rightarrow> matched)"

definition withCallback :: "host \<Rightarrow> (string \<Rightarrow> (string \<times> nat) option) \<Rightarrow> string
    \<Rightarrow> (string \<times> nat) option" where
  "withCallback h re s =
     (case re s of
        None \<Rightarrow> None
      | Some (name, k) \<Rightarrow> Some (substitute h (take (Suc k) s) name, k))"

text \<open>
  \<^verbatim>\<open>/%([A-Za-z_][A-Za-z0-9_()]*[A-Za-z0-9_)]?)%/g\<close>: the starred class does not contain
  \<open>%\<close> and contains the optional class, so the expression matches exactly when the longest
  run of class characters behind the first one is followed by \<open>%\<close>.
\<close>

definition percentRe :: "string \<Rightarrow> (string \<times> nat) option" where
  "percentRe s =
     (case s of
        p # c # rest \<Rightarrow>
          if p = CHR ''%'' \<and> isNameStart c then
            (let run = takeWhile isParenNameChar rest
             in case dropWhile isParenNameChar rest of
                  q # _ \<Rightarrow> if q = CHR ''%'' then Some (c # run, length run + 2) else None
                | [] \<Rightarrow> None)
          else None
      | _ \<Rightarrow> None)"

text \<open>\<^verbatim>\<open>/!([A-Za-z_][A-Za-z0-9_]*)!/g\<close>\<close>

definition bangRe :: "string \<Rightarrow> (string \<times> nat) option" where
  "bangRe s =
     (case s of
        p # c # rest \<Rightarrow>
          if p = CHR ''!'' \<and> isNameStart c then
            (let run = takeWhile isNameChar rest
             in case dropWhile isNameChar rest of
                  q # _ \<Rightarrow> if q = CHR ''!'' then Some (c # run, length run + 2) else None
                | [] \<Rightarrow> None)
          else None
      | _ \<Rightarrow> None)"

text \<open>
  \<^verbatim>\<open>/\$env:([A-Za-z_][A-Za-z0-9_]*)/gi\<close>: the letters of \<open>env\<close> match in either case;
  the name is the longest run.
\<close>

definition dollarEnvRe :: "string \<Rightarrow> (string \<times> nat) option" where
  "dollarEnvRe s =
     (if startsWith (toLowerCase (take 5 s)) ''$env:'' then
        (case drop 5 s of
           c # rest \<Rightarrow>
             if isNameStart c then
               (let run = takeWhile isNameChar rest in Some (c # run, length run + 5))
             else None
         | [] \<Rightarrow> None)
      else None)"

text \<open>
  \<^verbatim>\<open>/\$([A-Za-z_][A-Za-z0-9_]*)|\$\{([A-Za-z_][A-Za-z0-9_]*)\}/g\<close>: the first
  alternative is tried first; the names are never empty, so the callback's test
  \<^verbatim>\<open>if (!key) return match\<close> never fires.
\<close>

definition posixRe :: "string \<Rightarrow> (string \<times> nat) option" where
  "posixRe s =
     (case s of
        d # c # rest \<Rightarrow>
          if d \<noteq> CHR ''$'' then None
          else if isNameStart c then
            (let run = takeWhile isNameChar rest in Some (c # run, length run + 1))
          else if c = CHR ''{'' then
            (case rest of
               c' # rest' \<Rightarrow>
                 if isNameStart c' then
                   (let run = takeWhile isNameChar rest'
                    in case dropWhile isNameChar rest' of
                         q # _ \<Rightarrow> if q = CHR ''}'' then Some (c' # run, length run + 3) else None
                       | [] \<Rightarrow> None)
                 else None
             | [] \<Rightarrow> None)
          else None
      | _ \<Rightarrow> None)"

subsection \<open>The normalizer\<close>

definition startsWithHomePath :: "string \<Rightarrow> bool" where
  "startsWithHomePath p =
     (startsWith p ''~/'' \<or> startsWith p [CHR ''~'', bslash] \<or> p = ''~'')"

definition expandEnvironmentVariables :: "host \<Rightarrow> string \<Rightarrow> string" where
  "expandEnvironmentVariables h v =
     (if CHR ''%'' \<notin> set v \<and> CHR ''$'' \<notin> set v \<and> CHR ''!'' \<notin> set v then v
      else
        (let expanded = gsub (withCallback h percentRe) v;
             expanded = (if win32 h
                         then gsub (withCallback h dollarEnvRe) (gsub (withCallback h bangRe) expanded)
                         else expanded)
         in gsub (withCallback h posixRe) expanded))"

text \<open>\<^verbatim>\<open>os.homedir()\<close> is called in the three branches of the home notation only.\<close>

definition expandHomePath :: "host \<Rightarrow> string \<Rightarrow> string outcome" where
  "expandHomePath h p =
     (let expanded = expandEnvironmentVariables h p
      in if expanded = ''~'' then
           (case homedir h of None \<Rightarrow> Raises HomedirError | Some home \<Rightarrow> Returns home)
         else if startsWith expanded ''~/'' then
           (case homedir h of
              None \<Rightarrow> Raises HomedirError
            | Some home \<Rightarrow> Returns (path_join h [home, drop 2 expanded]))
         else if startsWith expanded [CHR ''~'', bslash] then
           (case homedir h of
              None \<Rightarrow> Raises HomedirError
            | Some home \<Rightarrow> Returns (path_join h [home, drop 2 expanded]))
         else Returns expanded)"

text \<open>
  \<^verbatim>\<open>/^\/([a-zA-Z])(\/.*)?$/\<close>: the dot does not match a line terminator and \<open>$\<close> is
  the end of the string, so the rest either is empty or starts with a slash and holds no
  LF and no CR.
\<close>

definition translateMsysPath :: "host \<Rightarrow> string \<Rightarrow> string" where
  "translateMsysPath h v =
     (if \<not> win32 h then v
      else
        (case v of
           s # d # restOfPath \<Rightarrow>
             if s = CHR ''/'' \<and> (isUpperAZ d \<or> isLowerAZ d)
                \<and> (restOfPath = []
                     \<or> (hd restOfPath = CHR ''/''
                         \<and> CHR 0x0A \<notin> set restOfPath \<and> CHR 0x0D \<notin> set restOfPath))
             then toUpperCase [d] @ '':''
                    @ map (\<lambda>c. if c = CHR ''/'' then bslash else c) restOfPath
             else v
         | _ \<Rightarrow> v))"


definition normalizePathBeforeResolution :: "host \<Rightarrow> string \<Rightarrow> string outcome" where
  "normalizePathBeforeResolution h p = mapOutcome (translateMsysPath h) (expandHomePath h p)"

definition uncPrefix :: string where
  "uncPrefix = [bslash, bslash, CHR ''?'', bslash, CHR ''U'', CHR ''N'', CHR ''C'', bslash]"

definition longPrefix :: string where
  "longPrefix = [bslash, bslash, CHR ''?'', bslash]"

definition normalizeWindowsPathPrefix :: "host \<Rightarrow> string \<Rightarrow> string" where
  "normalizeWindowsPathPrefix h v =
     (if \<not> win32 h then v
      else
        (let normalized = translateMsysPath h v
         in if startsWith normalized uncPrefix
            then [bslash, bslash] @ drop (length uncPrefix) normalized
            else if startsWith normalized longPrefix
            then drop (length longPrefix) normalized
            else normalized))"

text \<open>
  The \<^verbatim>\<open>catch\<close> branch of the source is not reachable: \<^verbatim>\<open>path.normalize\<close> and the
  string functions do not throw on a string.
\<close>

definition normalizePathForComparison :: "host \<Rightarrow> string \<Rightarrow> string" where
  "normalizePathForComparison h v =
     (if v = [] then []
      else
        (let normalized = normalizeWindowsPathPrefix h (path_normalize h v)
         in if win32 h then toLowerCase normalized else normalized))"

subsection \<open>The realpath resolver\<close>

text \<open>
  The \<^verbatim>\<open>while (true)\<close> loop of \<^verbatim>\<open>resolveRealPath\<close>. It returns when an existing
  ancestor resolves or when \<^verbatim>\<open>path.dirname\<close> reaches a fixed point; whether that happens
  depends on the runtime, so the loop is a partial function and \<open>None\<close> stands for a loop
  that does not return. An exception of \<^verbatim>\<open>realpathFn(current)\<close> is caught and the walk
  goes on. \<open>suffix\<close> holds the stripped segments in the order they were pushed.
\<close>

partial_function (option) walkUp :: "host \<Rightarrow> string \<Rightarrow> string \<Rightarrow> string list \<Rightarrow> string option" where
  "walkUp h absolute current suffix =
     (case (if existsSync h current then realpath h current else None) of
        Some resolvedExisting \<Rightarrow>
          Some (if suffix \<noteq> [] then path_join h (resolvedExisting # rev suffix)
                else resolvedExisting)
      | None \<Rightarrow>
          (let parent = path_dirname h current
           in if parent = current then Some absolute
              else walkUp h absolute parent (suffix @ [path_basename h current])))"

declare walkUp.simps [code]

text \<open>
  \<^verbatim>\<open>resolveRealPath\<close>: the exception of the first probe is caught; \<^verbatim>\<open>path.resolve(p)\<close>
  stands in the \<^verbatim>\<open>catch\<close> block, outside any \<^verbatim>\<open>try\<close>, so its exception reaches the
  caller.
\<close>

definition resolveRealPath :: "host \<Rightarrow> string \<Rightarrow> string outcome" where
  "resolveRealPath h p =
     (case realpath h p of
        Some r \<Rightarrow> Returns r
      | None \<Rightarrow>
          (case path_resolve h [p] of
             None \<Rightarrow> Raises CwdError
           | Some absolute \<Rightarrow>
               (case walkUp h absolute absolute [] of
                  None \<Rightarrow> Hangs
                | Some r \<Rightarrow> Returns r)))"

subsection \<open>Access control\<close>

text \<open>
  The comparison all four functions use:
  \<^verbatim>\<open>resolvedCandidate === root || resolvedCandidate.startsWith(root + path.sep)\<close>.
\<close>

definition isWithin :: "host \<Rightarrow> string \<Rightarrow> string \<Rightarrow> bool" where
  "isWithin h resolvedCandidate root =
     (resolvedCandidate = root \<or> startsWith resolvedCandidate (root @ path_sep h))"

text \<open>
  The candidate as the four functions resolve it: normalized, made absolute against the
  vault path as it was given, resolved and normalized for comparison.
\<close>

definition resolveCandidate :: "host \<Rightarrow> string \<Rightarrow> string \<Rightarrow> string outcome" where
  "resolveCandidate h candidatePath vaultPath =
     andThen (normalizePathBeforeResolution h candidatePath) (\<lambda>normalizedCandidate.
     andThen (if path_isAbsolute h normalizedCandidate then Returns normalizedCandidate
              else (case path_resolve h [vaultPath, normalizedCandidate] of
                      None \<Rightarrow> Raises CwdError
                    | Some absCandidate \<Rightarrow> Returns absCandidate)) (\<lambda>absCandidate.
     mapOutcome (normalizePathForComparison h) (resolveRealPath h absCandidate)))"

definition resolveVault :: "host \<Rightarrow> string \<Rightarrow> string outcome" where
  "resolveVault h vaultPath = mapOutcome (normalizePathForComparison h) (resolveRealPath h vaultPath)"

definition isPathWithinVault :: "host \<Rightarrow> string \<Rightarrow> string \<Rightarrow> bool outcome" where
  "isPathWithinVault h candidatePath vaultPath =
     andThen (resolveVault h vaultPath) (\<lambda>vaultReal.
     andThen (resolveCandidate h candidatePath vaultPath) (\<lambda>resolvedCandidate.
     Returns (isWithin h resolvedCandidate vaultReal)))"

text \<open>
  The \<^verbatim>\<open>for\<close> loop of the two list predicates: every entry is normalized and resolved as
  it stands, and the first entry that contains the candidate ends the loop.
\<close>

fun anyRootContains :: "host \<Rightarrow> string \<Rightarrow> string list \<Rightarrow> bool outcome" where
  "anyRootContains h resolvedCandidate [] = Returns False"
| "anyRootContains h resolvedCandidate (allowedPath # others) =
     (case andThen (normalizePathBeforeResolution h allowedPath) (resolveRealPath h) of
        Returns r \<Rightarrow>
          if isWithin h resolvedCandidate (normalizePathForComparison h r) then Returns True
          else anyRootContains h resolvedCandidate others
      | Raises e \<Rightarrow> Raises e
      | Hangs \<Rightarrow> Hangs)"

definition isPathInAllowedExportPaths :: "host \<Rightarrow> string \<Rightarrow> string list \<Rightarrow> string \<Rightarrow> bool outcome" where
  "isPathInAllowedExportPaths h candidatePath allowedExportPaths vaultPath =
     (if allowedExportPaths = [] then Returns False
      else andThen (resolveCandidate h candidatePath vaultPath) (\<lambda>resolvedCandidate.
           anyRootContains h resolvedCandidate allowedExportPaths))"

definition isPathInAllowedContextPaths :: "host \<Rightarrow> string \<Rightarrow> string list \<Rightarrow> string \<Rightarrow> bool outcome" where
  "isPathInAllowedContextPaths h candidatePath allowedContextPaths vaultPath =
     (if allowedContextPaths = [] then Returns False
      else andThen (resolveCandidate h candidatePath vaultPath) (\<lambda>resolvedCandidate.
           anyRootContains h resolvedCandidate allowedContextPaths))"

datatype PathAccessType = Vault | Readwrite | Context | Export | NoAccess

datatype rootKind = KContext | KExport

record rootFlags =
  contextFlag :: bool
  exportFlag :: bool

text \<open>
  \<^verbatim>\<open>roots\<close> is a JavaScript \<^verbatim>\<open>Map\<close>: it iterates in the order of first insertion, and
  setting a key that is present keeps its place. An association list updated with
  \<^const>\<open>AList.update\<close> does the same.
\<close>

definition addRoot :: "host \<Rightarrow> (string \<times> rootFlags) list \<Rightarrow> string \<Rightarrow> rootKind
    \<Rightarrow> (string \<times> rootFlags) list outcome" where
  "addRoot h roots rawPath kind =
     (let trimmed = trim rawPath
      in if trimmed = [] then Returns roots
         else
           (case andThen (normalizePathBeforeResolution h trimmed) (resolveRealPath h) of
              Returns r \<Rightarrow>
                (let resolved = normalizePathForComparison h r;
                     existing = (case map_of roots resolved of
                                   Some f \<Rightarrow> f
                                 | None \<Rightarrow> \<lparr>contextFlag = False, exportFlag = False\<rparr>);
                     existing = (case kind of
                                   KContext \<Rightarrow> existing\<lparr>contextFlag := True\<rparr>
                                 | KExport \<Rightarrow> existing\<lparr>exportFlag := True\<rparr>)
                 in Returns (AList.update resolved existing roots))
            | Raises e \<Rightarrow> Raises e
            | Hangs \<Rightarrow> Hangs))"

fun addRoots :: "host \<Rightarrow> (string \<times> rootFlags) list \<Rightarrow> string list \<Rightarrow> rootKind
    \<Rightarrow> (string \<times> rootFlags) list outcome" where
  "addRoots h roots [] kind = Returns roots"
| "addRoots h roots (rawPath # others) kind =
     (case addRoot h roots rawPath kind of
        Returns roots' \<Rightarrow> addRoots h roots' others kind
      | Raises e \<Rightarrow> Raises e
      | Hangs \<Rightarrow> Hangs)"

text \<open>
  The selection loop. \<^verbatim>\<open>bestRoot\<close> and \<^verbatim>\<open>bestFlags\<close> are set together, so they are
  one optional pair; \<^verbatim>\<open>!bestRoot\<close> holds of \<^verbatim>\<open>null\<close> and of the empty string.
\<close>

fun selectBest :: "host \<Rightarrow> string \<Rightarrow> (string \<times> rootFlags) list \<Rightarrow> (string \<times> rootFlags) option
    \<Rightarrow> (string \<times> rootFlags) option" where
  "selectBest h resolvedCandidate [] best = best"
| "selectBest h resolvedCandidate ((root, flags) # others) best =
     selectBest h resolvedCandidate others
       (if isWithin h resolvedCandidate root
           \<and> (case best of
                 None \<Rightarrow> True
               | Some (bestRoot, bestFlags) \<Rightarrow> bestRoot = [] \<or> length root > length bestRoot)
        then Some (root, flags)
        else best)"

definition accessOf :: "(string \<times> rootFlags) option \<Rightarrow> PathAccessType" where
  "accessOf best =
     (case best of
        None \<Rightarrow> NoAccess
      | Some (bestRoot, bestFlags) \<Rightarrow>
          if bestRoot = [] then NoAccess
          else if contextFlag bestFlags \<and> exportFlag bestFlags then Readwrite
          else if contextFlag bestFlags then Context
          else if exportFlag bestFlags then Export
          else NoAccess)"

text \<open>
  The classifier. A list that is \<^verbatim>\<open>undefined\<close> counts as the empty list
  (\<^verbatim>\<open>allowedContextPaths ?? []\<close>), and \<^verbatim>\<open>!candidatePath\<close> holds of the empty string.
\<close>

definition getPathAccessType :: "host \<Rightarrow> string \<Rightarrow> string list \<Rightarrow> string list \<Rightarrow> string
    \<Rightarrow> PathAccessType outcome" where
  "getPathAccessType h candidatePath allowedContextPaths allowedExportPaths vaultPath =
     (if candidatePath = [] then Returns NoAccess
      else
        andThen (resolveVault h vaultPath) (\<lambda>vaultReal.
        andThen (resolveCandidate h candidatePath vaultPath) (\<lambda>resolvedCandidate.
          if isWithin h resolvedCandidate vaultReal then Returns Vault
          else
            andThen (addRoots h [] allowedContextPaths KContext) (\<lambda>roots.
            andThen (addRoots h roots allowedExportPaths KExport) (\<lambda>roots.
            Returns (accessOf (selectBest h resolvedCandidate roots None)))))))"

subsection \<open>A POSIX runtime\<close>

text \<open>
  The functions of Node's \<^verbatim>\<open>path.posix\<close> that the code calls, on segments: a path is
  split at its slashes, empty segments and \<open>.\<close> are dropped, and \<open>..\<close> removes the segment
  before it (above a relative start it is kept, above the root it is dropped).
\<close>

primrec splitSlash :: "string \<Rightarrow> string list" where
  "splitSlash [] = [[]]"
| "splitSlash (c # cs) =
     (if c = CHR ''/'' then [] # splitSlash cs
      else (case splitSlash cs of [] \<Rightarrow> [[c]] | seg # segs \<Rightarrow> (c # seg) # segs))"

fun joinSlash :: "string list \<Rightarrow> string" where
  "joinSlash [] = []"
| "joinSlash [seg] = seg"
| "joinSlash (seg # segs) = seg @ ''/'' @ joinSlash segs"

fun normalizeSegments :: "bool \<Rightarrow> string list \<Rightarrow> string list \<Rightarrow> string list" where
  "normalizeSegments allowAboveRoot res [] = res"
| "normalizeSegments allowAboveRoot res (seg # segs) =
     normalizeSegments allowAboveRoot
       (if seg = [] \<or> seg = ''.'' then res
        else if seg = ''..'' then
          (if res \<noteq> [] \<and> last res \<noteq> ''..'' then butlast res
           else if allowAboveRoot then res @ [''..'']
           else res)
        else res @ [seg])
       segs"

definition normalizeString :: "string \<Rightarrow> bool \<Rightarrow> string" where
  "normalizeString p allowAboveRoot = joinSlash (normalizeSegments allowAboveRoot [] (splitSlash p))"

definition posix_isAbsolute :: "string \<Rightarrow> bool" where
  "posix_isAbsolute p = (case p of [] \<Rightarrow> False | c # _ \<Rightarrow> c = CHR ''/'')"

definition posix_normalize :: "string \<Rightarrow> string" where
  "posix_normalize p =
     (if p = [] then ''.''
      else
        (let isAbsolute = posix_isAbsolute p;
             trailingSeparator = (last p = CHR ''/'');
             norm = normalizeString p (\<not> isAbsolute)
         in if norm = [] then (if isAbsolute then ''/'' else if trailingSeparator then ''./'' else ''.'')
            else (if isAbsolute then ''/'' else []) @ norm @ (if trailingSeparator then ''/'' else [])))"


text \<open>
  \<^verbatim>\<open>path.resolve\<close> goes through its arguments from the right until it has met an
  absolute one; empty arguments are skipped. When no argument is absolute it asks for the
  working directory, which is \<open>None\<close> when \<^verbatim>\<open>process.cwd()\<close> throws.
\<close>

fun resolveArgs :: "string list \<Rightarrow> string \<Rightarrow> string \<times> bool" where
  "resolveArgs [] resolvedPath = (resolvedPath, False)"
| "resolveArgs (p # ps) resolvedPath =
     (if p = [] then resolveArgs ps resolvedPath
      else if posix_isAbsolute p then (p @ ''/'' @ resolvedPath, True)
      else resolveArgs ps (p @ ''/'' @ resolvedPath))"

definition posix_resolve :: "string option \<Rightarrow> string list \<Rightarrow> string option" where
  "posix_resolve cwd args =
     (case resolveArgs (rev args) [] of
        (resolvedPath, True) \<Rightarrow> Some (''/'' @ normalizeString resolvedPath False)
      | (resolvedPath, False) \<Rightarrow>
          (case cwd of
             None \<Rightarrow> None
           | Some dir \<Rightarrow>
               (case resolveArgs [dir] resolvedPath of
                  (resolvedPath', resolvedAbsolute) \<Rightarrow>
                    (let norm = normalizeString resolvedPath' (\<not> resolvedAbsolute)
                     in Some (if resolvedAbsolute then ''/'' @ norm
                              else if norm \<noteq> [] then norm else ''.'')))))"

definition posix_join :: "string list \<Rightarrow> string" where
  "posix_join args =
     (let joined = joinSlash (filter (\<lambda>arg. arg \<noteq> []) args)
      in if joined = [] then ''.'' else posix_normalize joined)"

text \<open>
  \<^verbatim>\<open>path.dirname\<close> looks at the characters behind the first one, from the end: it skips
  the trailing slashes and the last segment, and cuts at the slash before that segment.
\<close>

definition posix_dirname :: "string \<Rightarrow> string" where
  "posix_dirname p =
     (if p = [] then ''.''
      else
        (let hasRoot = posix_isAbsolute p;
             scanned = dropWhile (\<lambda>c. c \<noteq> CHR ''/'')
                         (dropWhile (\<lambda>c. c = CHR ''/'') (rev (tl p)))
         in if scanned = [] then (if hasRoot then ''/'' else ''.'')
            else if hasRoot \<and> length scanned = 1 then ''//''
            else take (length scanned) p))"

definition posix_basename :: "string \<Rightarrow> string" where
  "posix_basename p =
     rev (takeWhile (\<lambda>c. c \<noteq> CHR ''/'') (dropWhile (\<lambda>c. c = CHR ''/'') (rev p)))"


text \<open>
  A POSIX host: an environment, a home directory, a working directory (each of the two
  \<open>None\<close> when the runtime throws on the request for it) and a file system, given as the
  table of the path strings that exist with the canonical path of each (an entry that
  differs from its canonical path is reached through a symbolic link). A string that is
  not in the table does not exist, and resolving it throws.
\<close>

definition posixHost :: "(string \<times> string) list \<Rightarrow> string option \<Rightarrow> string option
    \<Rightarrow> (string \<times> string) list \<Rightarrow> host" where
  "posixHost env home cwd fs =
     \<lparr> win32 = False, environ = env, homedir = home,
       realpath = map_of fs, existsSync = (\<lambda>p. map_of fs p \<noteq> None),
       path_sep = ''/'', path_isAbsolute = posix_isAbsolute, path_normalize = posix_normalize,
       path_resolve = posix_resolve cwd, path_join = posix_join,
       path_dirname = posix_dirname, path_basename = posix_basename \<rparr>"

text \<open>The walk of \<open>walkUp\<close> ends on every start when the parent relation is well-founded.\<close>

definition dirnameTerminates :: "host \<Rightarrow> bool" where
  "dirnameTerminates h = wf {(path_dirname h p, p) | p. path_dirname h p \<noteq> p}"

text \<open>The measure that decreases along \<^const>\<open>posix_dirname\<close>.\<close>

definition dirMeasure :: "string \<Rightarrow> nat" where
  "dirMeasure p = (if p = ''.'' then 0 else Suc (length p))"

subsection \<open>Notions used in the statements and proofs\<close>

text \<open>The map of merged roots that \<^const>\<open>getPathAccessType\<close> builds from its two lists.\<close>

definition mergedRoots :: "host \<Rightarrow> string list \<Rightarrow> string list \<Rightarrow> (string \<times> rootFlags) list outcome" where
  "mergedRoots h allowedContextPaths allowedExportPaths =
     andThen (addRoots h [] allowedContextPaths KContext) (\<lambda>roots.
       addRoots h roots allowedExportPaths KExport)"

text \<open>The key under which \<^const>\<open>addRoot\<close> files a list entry that is not blank.\<close>

definition resolveRoot :: "host \<Rightarrow> string \<Rightarrow> string outcome" where
  "resolveRoot h rawPath =
     mapOutcome (normalizePathForComparison h)
       (andThen (normalizePathBeforeResolution h (trim rawPath)) (resolveRealPath h))"

text \<open>The key a list predicate compares with: the entry as it stands.\<close>

definition resolveEntry :: "host \<Rightarrow> string \<Rightarrow> string outcome" where
  "resolveEntry h allowedPath =
     mapOutcome (normalizePathForComparison h)
       (andThen (normalizePathBeforeResolution h allowedPath) (resolveRealPath h))"

text \<open>The access class that belongs to the flags of a root.\<close>

definition classOf :: "rootFlags \<Rightarrow> PathAccessType" where
  "classOf flags =
     (if contextFlag flags \<and> exportFlag flags then Readwrite
      else if contextFlag flags then Context
      else Export)"




text \<open>
  The host of the examples: the variable \<open>DATA\<close> holds a reference that was stored
  unexpanded, \<open>/ctx\<close> is a symbolic link to \<open>/real\<close>, and the working directory is \<open>/cwd\<close>.
\<close>

definition exampleFiles :: "(string \<times> string) list" where
  "exampleFiles =
     [(''/'', ''/''), (''/vault'', ''/vault''), (''/a'', ''/a''), (''/a/b'', ''/a/b''),
      (''/ctx'', ''/real''), (''/real'', ''/real''), (''/cwd'', ''/cwd'')]"

definition exampleHost :: host where
  "exampleHost =
     posixHost [(''HOME'', ''/home/u''), (''DATA'', ''$HOME/data'')] (Some ''/home/u'') (Some ''/cwd'')
       exampleFiles"

text \<open>
  The same file system in a process for which no home directory can be found, in one
  whose working directory has been removed, and in one whose home directory is given in
  the home notation (\<^verbatim>\<open>os.homedir()\<close> returns the variable \<open>HOME\<close> as it is set).
\<close>

definition hostWithoutHome :: host where
  "hostWithoutHome = posixHost [] None (Some ''/cwd'') exampleFiles"

definition hostWithoutCwd :: host where
  "hostWithoutCwd = posixHost [] (Some ''/home/u'') None exampleFiles"

definition hostWithTildeHome :: host where
  "hostWithTildeHome = posixHost [(''HOME'', ''~/w'')] (Some ''~/w'') (Some ''/cwd'') exampleFiles"

text \<open>
  A path at which the walk of the resolver stops: it exists and the realpath probe
  resolves it. The \<open>i\<close>-th path of the walk that starts at the absolute path \<open>a\<close>.
\<close>

definition resolvable :: "host \<Rightarrow> string \<Rightarrow> bool" where
  "resolvable h q = (existsSync h q \<and> realpath h q \<noteq> None)"

definition ancestor :: "host \<Rightarrow> string \<Rightarrow> nat \<Rightarrow> string" where
  "ancestor h a i = (path_dirname h ^^ i) a"

text \<open>The flag that \<^const>\<open>addRoot\<close> sets for a kind, and the order of flags by implication.\<close>

definition hasKind :: "rootKind \<Rightarrow> rootFlags \<Rightarrow> bool" where
  "hasKind k f = (case k of KContext \<Rightarrow> contextFlag f | KExport \<Rightarrow> exportFlag f)"

definition flagsLe :: "rootFlags \<Rightarrow> rootFlags \<Rightarrow> bool" where
  "flagsLe f g = ((contextFlag f \<longrightarrow> contextFlag g) \<and> (exportFlag f \<longrightarrow> exportFlag g))"



text \<open>The runtime calls that can throw do not: the assumptions on a host.\<close>

definition homedirReturns :: "host \<Rightarrow> bool" where
  "homedirReturns h = (homedir h \<noteq> None)"

definition cwdReturns :: "host \<Rightarrow> bool" where
  "cwdReturns h = (\<forall>args. path_resolve h args \<noteq> None)"

text \<open>An exception as the runtime throws it: the call it stands for has failed.\<close>

definition thrownByRuntime :: "host \<Rightarrow> error \<Rightarrow> bool" where
  "thrownByRuntime h e =
     (case e of
        HomedirError \<Rightarrow> \<not> homedirReturns h
      | CwdError \<Rightarrow> \<not> cwdReturns h)"

text \<open>
  The references a replacement meets on its scan of a string, as \<^const>\<open>gsub\<close> scans it:
  \<open>meetsDefined\<close> tells whether one of them names a variable that is defined. A string
  holds a reference to a defined variable when one of the replacements that run on the
  platform meets one.
\<close>

fun meetsDefined :: "host \<Rightarrow> (string \<Rightarrow> (string \<times> nat) option) \<Rightarrow> string \<Rightarrow> bool" where
  "meetsDefined h re [] = False"
| "meetsDefined h re (c # cs) =
     (case re (c # cs) of
        Some (name, k) \<Rightarrow> getEnvValue h name \<noteq> None \<or> meetsDefined h re (drop k cs)
      | None \<Rightarrow> meetsDefined h re cs)"

definition hasDefinedReference :: "host \<Rightarrow> string \<Rightarrow> bool" where
  "hasDefinedReference h y =
     (meetsDefined h percentRe y
      \<or> (win32 h \<and> (meetsDefined h bangRe y \<or> meetsDefined h dollarEnvRe y))
      \<or> meetsDefined h posixRe y)"











section \<open>Termination of the resolver\<close>

lemma dropWhile_twice_shorter:
  assumes "dropWhile Q (dropWhile P xs) \<noteq> []" and "\<And>x. \<not> P x \<Longrightarrow> Q x"
  shows "length (dropWhile Q (dropWhile P xs)) < length xs"
proof (cases "dropWhile P xs")
  case Nil
  with assms(1) show ?thesis by simp
next
  case (Cons y ys)
  then have "\<not> P y" by (metis hd_dropWhile list.distinct(1) list.sel(1))
  then have "Q y" by (rule assms(2))
  then have "dropWhile Q (dropWhile P xs) = dropWhile Q ys" using Cons by simp
  moreover have "length (dropWhile Q ys) \<le> length ys" by (rule length_dropWhile_le)
  moreover have "length (dropWhile P xs) \<le> length xs" by (rule length_dropWhile_le)
  ultimately show ?thesis using Cons by simp
qed

lemma dirMeasure_le: "dirMeasure q \<le> Suc (length q)"
  by (simp add: dirMeasure_def)

lemma dirMeasure_eq: "p \<noteq> ''.'' \<Longrightarrow> dirMeasure p = Suc (length p)"
  by (simp add: dirMeasure_def)

lemma posix_dirname_decreases:
  assumes "posix_dirname p \<noteq> p"
  shows "dirMeasure (posix_dirname p) < dirMeasure p"
proof (cases "p = []")
  case True
  then show ?thesis by (simp add: posix_dirname_def dirMeasure_def)
next
  case False
  define scanned where "scanned = dropWhile (\<lambda>c. c \<noteq> CHR ''/'') (dropWhile (\<lambda>c. c = CHR ''/'') (rev (tl p)))"
  have len: "length scanned + 2 \<le> length p" if ne: "scanned \<noteq> []"
  proof -
    have "length scanned < length (rev (tl p))"
      unfolding scanned_def by (rule dropWhile_twice_shorter) (use ne scanned_def in auto)
    then show ?thesis using False by simp
  qed
  have unfold: "posix_dirname p =
     (if scanned = [] then (if posix_isAbsolute p then ''/'' else ''.'')
      else if posix_isAbsolute p \<and> length scanned = 1 then ''//''
      else take (length scanned) p)"
    unfolding posix_dirname_def scanned_def Let_def using False by simp
  show ?thesis
  proof (cases "scanned = []")
    case True
    show ?thesis
    proof (cases "posix_isAbsolute p")
      case abs: True
      have d: "posix_dirname p = ''/''" using unfold True abs by simp
      from abs obtain cs where p: "p = CHR ''/'' # cs"
        by (cases p) (simp_all add: posix_isAbsolute_def)
      have "cs \<noteq> []" using assms d p by auto
      then have "2 \<le> length p" using p by (cases cs) simp_all
      moreover have "p \<noteq> ''.''" using p by simp
      ultimately show ?thesis unfolding d by (simp add: dirMeasure_def)
    next
      case rel: False
      have d: "posix_dirname p = ''.''" using unfold True rel by simp
      have "p \<noteq> ''.''" using assms d by auto
      then show ?thesis unfolding d by (simp add: dirMeasure_def)
    qed
  next
    case ne: False
    from len[OF ne] have l: "length scanned + 2 \<le> length p" .
    have pd: "dirMeasure p = Suc (length p)"
    proof (rule dirMeasure_eq)
      show "p \<noteq> ''.''" using l by auto
    qed
    show ?thesis
    proof (cases "posix_isAbsolute p \<and> length scanned = 1")
      case True
      have d: "posix_dirname p = ''//''"
        by (subst unfold) (use True ne in auto)
      show ?thesis unfolding d pd using l True by (simp add: dirMeasure_def)
    next
      case False
      have d: "posix_dirname p = take (length scanned) p"
        by (subst unfold) (use False ne in auto)
      have "dirMeasure (take (length scanned) p) \<le> Suc (length (take (length scanned) p))"
        by (rule dirMeasure_le)
      also have "\<dots> < Suc (length p)" using l by simp
      finally show ?thesis unfolding d pd .
    qed
  qed
qed

lemma posixHost_dirnameTerminates: "dirnameTerminates (posixHost env home cwd fs)"
proof -
  have "{(posix_dirname p, p) | p. posix_dirname p \<noteq> p} \<subseteq> measure dirMeasure"
    using posix_dirname_decreases by auto
  then have "wf {(posix_dirname p, p) | p. posix_dirname p \<noteq> p}"
    by (rule wf_subset[OF wf_measure])
  then show ?thesis by (simp add: dirnameTerminates_def posixHost_def)
qed

lemma walkUp_total:
  assumes "dirnameTerminates h"
  shows "\<exists>r. walkUp h a c s = Some r"
  using assms[unfolded dirnameTerminates_def]
proof (induction c arbitrary: s rule: wf_induct_rule)
  case (less c)
  show ?case
  proof (cases "if existsSync h c then realpath h c else None")
    case (Some r)
    then show ?thesis by (subst walkUp.simps) simp
  next
    case None
    show ?thesis
    proof (cases "path_dirname h c = c")
      case True
      with None show ?thesis by (subst walkUp.simps) (simp add: Let_def)
    next
      case False
      then have "(path_dirname h c, c) \<in> {(path_dirname h p, p) | p. path_dirname h p \<noteq> p}" by auto
      from less.IH[OF this] obtain r where "walkUp h a (path_dirname h c) (s @ [path_basename h c]) = Some r"
        by blast
      with None False show ?thesis by (subst walkUp.simps) (simp add: Let_def)
    qed
  qed
qed

lemma andThen_Returns_iff:
  "andThen r f = Returns y \<longleftrightarrow> (\<exists>x. r = Returns x \<and> f x = Returns y)"
  by (cases r) auto

lemma mapOutcome_Returns_iff:
  "mapOutcome f r = Returns y \<longleftrightarrow> (\<exists>x. r = Returns x \<and> y = f x)"
  by (cases r) (auto simp: mapOutcome_def)

lemma mapOutcome_simps:
  "mapOutcome f (Returns x) = Returns (f x)"
  "mapOutcome f (Raises e) = Raises e"
  "mapOutcome f Hangs = Hangs"
  by (simp_all add: mapOutcome_def)

lemma resolveRealPath_not_Hangs:
  assumes "dirnameTerminates h"
  shows "resolveRealPath h p \<noteq> Hangs"
proof (cases "realpath h p")
  case (Some r)
  then show ?thesis by (simp add: resolveRealPath_def)
next
  case None
  show ?thesis
  proof (cases "path_resolve h [p]")
    case n: None
    with None show ?thesis by (simp add: resolveRealPath_def)
  next
    case (Some a)
    from walkUp_total[OF assms] obtain r where "walkUp h a a [] = Some r" by blast
    with None Some show ?thesis by (simp add: resolveRealPath_def)
  qed
qed

lemma resolveRealPath_total:
  assumes "dirnameTerminates h" "cwdReturns h"
  shows "\<exists>r. resolveRealPath h p = Returns r"
proof (cases "realpath h p")
  case (Some r)
  then show ?thesis by (simp add: resolveRealPath_def)
next
  case None
  from assms(2) obtain a where a: "path_resolve h [p] = Some a"
    unfolding cwdReturns_def by fastforce
  from walkUp_total[OF assms(1)] obtain r where "walkUp h a a [] = Some r" by blast
  with None a show ?thesis by (simp add: resolveRealPath_def)
qed

lemma resolveRealPath_Raises:
  "resolveRealPath h p = Raises e \<Longrightarrow> e = CwdError \<and> realpath h p = None \<and> path_resolve h [p] = None"
  by (auto simp: resolveRealPath_def split: option.splits)

section \<open>The functions return\<close>

lemma expandHomePath_total:
  "homedirReturns h \<Longrightarrow> \<exists>y. expandHomePath h p = Returns y"
  by (auto simp: expandHomePath_def Let_def homedirReturns_def)

lemma normalizePathBeforeResolution_total:
  "homedirReturns h \<Longrightarrow> \<exists>y. normalizePathBeforeResolution h p = Returns y"
  using expandHomePath_total[of h p] by (auto simp: normalizePathBeforeResolution_def mapOutcome_simps)

lemma resolveCandidate_total:
  assumes "dirnameTerminates h" "cwdReturns h" "homedirReturns h"
  shows "\<exists>rc. resolveCandidate h c v = Returns rc"
proof -
  from normalizePathBeforeResolution_total[OF assms(3)]
  obtain n where n: "normalizePathBeforeResolution h c = Returns n" by blast
  from assms(2) obtain a' where a': "path_resolve h [v, n] = Some a'"
    unfolding cwdReturns_def by fastforce
  obtain a where a: "(if path_isAbsolute h n then Returns n
      else (case path_resolve h [v, n] of None \<Rightarrow> Raises CwdError | Some a \<Rightarrow> Returns a)) = Returns a"
    using a' by (cases "path_isAbsolute h n") simp_all
  from resolveRealPath_total[OF assms(1,2)]
  obtain r where r: "resolveRealPath h a = Returns r" by blast
  show ?thesis unfolding resolveCandidate_def n andThen.simps a r mapOutcome_simps by blast
qed

lemma resolveVault_total:
  "dirnameTerminates h \<Longrightarrow> cwdReturns h \<Longrightarrow> \<exists>vr. resolveVault h v = Returns vr"
  using resolveRealPath_total[of h v] by (auto simp: resolveVault_def mapOutcome_simps)

lemma resolveEntry_total:
  assumes "dirnameTerminates h" "cwdReturns h" "homedirReturns h"
  shows "\<exists>r. andThen (normalizePathBeforeResolution h p) (resolveRealPath h) = Returns r"
proof -
  from normalizePathBeforeResolution_total[OF assms(3)]
  obtain n where n: "normalizePathBeforeResolution h p = Returns n" by blast
  from resolveRealPath_total[OF assms(1,2)]
  obtain r where r: "resolveRealPath h n = Returns r" by blast
  show ?thesis unfolding n andThen.simps r by blast
qed

lemma anyRootContains_total:
  assumes "dirnameTerminates h" "cwdReturns h" "homedirReturns h"
  shows "\<exists>b. anyRootContains h rc ps = Returns b"
proof (induction ps)
  case Nil
  show ?case by auto
next
  case (Cons p ps)
  from resolveEntry_total[OF assms]
  obtain r where "andThen (normalizePathBeforeResolution h p) (resolveRealPath h) = Returns r" by blast
  then show ?case using Cons.IH by auto
qed

lemma addRoot_total:
  assumes "dirnameTerminates h" "cwdReturns h" "homedirReturns h"
  shows "\<exists>roots'. addRoot h roots e k = Returns roots'"
proof -
  from resolveEntry_total[OF assms]
  obtain r where "andThen (normalizePathBeforeResolution h (trim e)) (resolveRealPath h) = Returns r" by blast
  then show ?thesis by (simp add: addRoot_def Let_def)
qed

lemma addRoots_total:
  assumes "dirnameTerminates h" "cwdReturns h" "homedirReturns h"
  shows "\<exists>roots'. addRoots h roots es k = Returns roots'"
proof (induction es arbitrary: roots)
  case Nil
  show ?case by simp
next
  case (Cons e es)
  from addRoot_total[OF assms] obtain r1 where r1: "addRoot h roots e k = Returns r1" by blast
  from Cons.IH obtain r2 where "addRoots h r1 es k = Returns r2" by blast
  with r1 show ?case by simp
qed

lemma getPathAccessType_total:
  assumes t: "dirnameTerminates h" "cwdReturns h" "homedirReturns h"
  shows "\<exists>a. getPathAccessType h c ctx exp v = Returns a"
proof -
  from resolveVault_total[OF t(1,2)] obtain vr where vr: "resolveVault h v = Returns vr" by blast
  from resolveCandidate_total[OF t] obtain rc where rc: "resolveCandidate h c v = Returns rc" by blast
  from addRoots_total[OF t] obtain r1 where r1: "addRoots h [] ctx KContext = Returns r1" by blast
  from addRoots_total[OF t] obtain r2 where r2: "addRoots h r1 exp KExport = Returns r2" by blast
  show ?thesis by (simp add: getPathAccessType_def vr rc r1 r2)
qed

lemma isPathWithinVault_total:
  assumes t: "dirnameTerminates h" "cwdReturns h" "homedirReturns h"
  shows "\<exists>b. isPathWithinVault h c v = Returns b"
proof -
  from resolveVault_total[OF t(1,2)] obtain vr where vr: "resolveVault h v = Returns vr" by blast
  from resolveCandidate_total[OF t] obtain rc where rc: "resolveCandidate h c v = Returns rc" by blast
  show ?thesis by (simp add: isPathWithinVault_def vr rc)
qed

lemma listPredicates_total:
  assumes t: "dirnameTerminates h" "cwdReturns h" "homedirReturns h"
  shows "\<exists>b. isPathInAllowedExportPaths h c ps v = Returns b"
    and "\<exists>b. isPathInAllowedContextPaths h c ps v = Returns b"
proof -
  from resolveCandidate_total[OF t] obtain rc where rc: "resolveCandidate h c v = Returns rc" by blast
  from anyRootContains_total[OF t] obtain b where b: "anyRootContains h rc ps = Returns b" by blast
  show "\<exists>b. isPathInAllowedExportPaths h c ps v = Returns b"
    by (auto simp: isPathInAllowedExportPaths_def rc b)
  show "\<exists>b. isPathInAllowedContextPaths h c ps v = Returns b"
    by (auto simp: isPathInAllowedContextPaths_def rc b)
qed

lemma exampleHost_terminates: "dirnameTerminates exampleHost"
  unfolding exampleHost_def by (rule posixHost_dirnameTerminates)

lemma posix_resolve_Some: "\<exists>r. posix_resolve (Some d) args = Some r"
  by (auto simp: posix_resolve_def Let_def split: prod.splits bool.splits)

lemma posixHost_cwdReturns: "cwdReturns (posixHost env home (Some d) fs)"
  using posix_resolve_Some by (simp add: cwdReturns_def posixHost_def)

lemma exampleHost_cwdReturns: "cwdReturns exampleHost"
  unfolding exampleHost_def by (rule posixHost_cwdReturns)

lemma exampleHost_homedirReturns: "homedirReturns exampleHost"
  by (simp add: exampleHost_def posixHost_def homedirReturns_def)

section \<open>C1: the vault check\<close>

lemma startsWith_iff: "startsWith s p \<longleftrightarrow> (\<exists>rest. s = p @ rest)"
proof (induction p arbitrary: s)
  case Nil
  show ?case by simp
next
  case (Cons a p)
  show ?case by (cases s) (auto simp: Cons.IH)
qed

lemma isWithin_iff:
  "isWithin h rc root \<longleftrightarrow> rc = root \<or> (\<exists>rest. rc = root @ path_sep h @ rest)"
  by (simp add: isWithin_def startsWith_iff)

lemma accessOf_not_Vault: "accessOf best \<noteq> Vault"
  by (simp add: accessOf_def split: option.splits prod.splits)

lemma getPathAccessType_Vault_iff:
  assumes "c \<noteq> []"
  shows "getPathAccessType h c ctx exp v = Returns Vault \<longleftrightarrow>
         (\<exists>rc vr. resolveCandidate h c v = Returns rc \<and> resolveVault h v = Returns vr \<and> isWithin h rc vr)"
  using assms accessOf_not_Vault
  by (auto simp: getPathAccessType_def andThen_Returns_iff)

lemma isPathWithinVault_True_iff:
  "isPathWithinVault h c v = Returns True \<longleftrightarrow>
   (\<exists>rc vr. resolveCandidate h c v = Returns rc \<and> resolveVault h v = Returns vr \<and> isWithin h rc vr)"
  by (auto simp: isPathWithinVault_def andThen_Returns_iff)

text \<open>
  C1, as stated, fails at the empty candidate: it resolves to the vault root, and the
  classifier answers \<open>none\<close> before it resolves anything.
\<close>

theorem C1_empty_candidate_counterexample:
  "resolveCandidate exampleHost [] ''/vault'' = Returns ''/vault'' \<and>
   resolveVault exampleHost ''/vault'' = Returns ''/vault'' \<and>
   getPathAccessType exampleHost [] [] [] ''/vault'' = Returns NoAccess"
  by code_simp

text \<open>
  C1, amended: for every candidate that is not the empty string, the classifier returns
  \<open>vault\<close> if and only if the resolved candidate equals the resolved vault root or is the
  vault root followed by the separator and a rest; the outcome of this check is the same
  for all context and export lists, and it is the answer of \<^const>\<open>isPathWithinVault\<close>.
  On the example host \<open>/vault2/file\<close> is not in the vault \<open>/vault\<close>.
\<close>

theorem C1_vault_iff:
  "c \<noteq> [] \<Longrightarrow>
     ((getPathAccessType h c ctx exp v = Returns Vault) =
        (\<exists>rc vr. resolveCandidate h c v = Returns rc \<and> resolveVault h v = Returns vr \<and>
                 (rc = vr \<or> (\<exists>rest. rc = vr @ path_sep h @ rest)))) \<and>
     ((getPathAccessType h c ctx exp v = Returns Vault) =
        (getPathAccessType h c ctx' exp' v = Returns Vault)) \<and>
     ((getPathAccessType h c ctx exp v = Returns Vault) = (isPathWithinVault h c v = Returns True)) \<and>
     getPathAccessType exampleHost ''/vault2/file'' [] [] ''/vault'' = Returns NoAccess"
proof -
  assume c: "c \<noteq> []"
  have ex: "getPathAccessType exampleHost ''/vault2/file'' [] [] ''/vault'' = Returns NoAccess"
    by code_simp
  show ?thesis
    unfolding getPathAccessType_Vault_iff[OF c] isPathWithinVault_True_iff isWithin_iff
    using ex by simp
qed

text \<open>The theorem at a relative candidate, which lies in the vault whatever the lists are.\<close>

theorem C1_vault_iff_witness:
  "getPathAccessType exampleHost ''notes/a.md'' [''/a''] [''/a/b''] ''/vault'' = Returns Vault \<and>
   getPathAccessType exampleHost ''notes/a.md'' [] [] ''/vault'' = Returns Vault \<and>
   isPathWithinVault exampleHost ''notes/a.md'' ''/vault'' = Returns True"
proof -
  have ne: "''notes/a.md'' \<noteq> []" by simp
  have v: "getPathAccessType exampleHost ''notes/a.md'' [''/a''] [''/a/b''] ''/vault'' = Returns Vault"
    by code_simp
  from C1_vault_iff[OF ne, of exampleHost "[''/a'']" "[''/a/b'']" "''/vault''" "[]" "[]"] v
  show ?thesis by simp
qed

section \<open>C9: blank entries of the root lists\<close>

lemma dropWhile_rev_dropWhile:
  "dropWhile P (rev (dropWhile P (rev (dropWhile P s)))) = rev (dropWhile P (rev (dropWhile P s)))"
proof -
  define t where "t = dropWhile P s"
  define u where "u = dropWhile P (rev t)"
  have "rev t = takeWhile P (rev t) @ u" by (simp add: u_def)
  then have t: "t = rev u @ rev (takeWhile P (rev t))"
    by (metis rev_append rev_rev_ident)
  have "dropWhile P (rev u) = rev u"
  proof (cases "rev u")
    case Nil
    then show ?thesis by simp
  next
    case (Cons x xs)
    from t Cons have tx: "t = (x # xs) @ rev (takeWhile P (rev t))" by simp
    have "hd t = x" by (subst tx) simp
    moreover have "t \<noteq> []" by (subst tx) simp
    moreover have "t \<noteq> [] \<Longrightarrow> \<not> P (hd t)" unfolding t_def by (rule hd_dropWhile)
    ultimately have "\<not> P x" by auto
    with Cons show ?thesis by simp
  qed
  then show ?thesis by (simp add: u_def t_def)
qed

lemma trim_idem: "trim (trim s) = trim s"
proof -
  have "dropWhile isWhiteSpace (trim s) = trim s"
    unfolding trim_def by (rule dropWhile_rev_dropWhile)
  then have "trim (trim s) = rev (dropWhile isWhiteSpace (rev (trim s)))"
    by (simp add: trim_def[of "trim s"])
  also have "rev (trim s) = dropWhile isWhiteSpace (rev (dropWhile isWhiteSpace s))"
    by (simp add: trim_def)
  also have "dropWhile isWhiteSpace \<dots> = dropWhile isWhiteSpace (rev (dropWhile isWhiteSpace s))"
    by (rule dropWhile_idem)
  finally show ?thesis by (simp add: trim_def)
qed

lemma addRoot_blank: "trim e = [] \<Longrightarrow> addRoot h roots e k = Returns roots"
  by (simp add: addRoot_def)

lemma addRoot_trim: "addRoot h roots (trim e) k = addRoot h roots e k"
  by (simp add: addRoot_def trim_idem)

lemma addRoots_trimmed:
  "addRoots h roots (filter (\<lambda>e. e \<noteq> []) (map trim es)) k = addRoots h roots es k"
proof (induction es arbitrary: roots)
  case Nil
  show ?case by simp
next
  case (Cons e es)
  show ?case
  proof (cases "trim e = []")
    case True
    then show ?thesis using Cons.IH by (simp add: addRoot_blank)
  next
    case False
    then show ?thesis using Cons.IH by (simp add: addRoot_trim split: outcome.splits)
  qed
qed

lemma getPathAccessType_mergedRoots:
  "getPathAccessType h c ctx exp v =
     (if c = [] then Returns NoAccess
      else andThen (resolveVault h v) (\<lambda>vr.
           andThen (resolveCandidate h c v) (\<lambda>rc.
             if isWithin h rc vr then Returns Vault
             else mapOutcome (\<lambda>roots. accessOf (selectBest h rc roots None))
                    (mergedRoots h ctx exp))))"
proof -
  have "andThen (addRoots h [] ctx KContext) (\<lambda>roots. andThen (addRoots h roots exp KExport)
           (\<lambda>roots. Returns (f roots))) = mapOutcome f (mergedRoots h ctx exp)" for f :: "(string \<times> rootFlags) list \<Rightarrow> PathAccessType"
    by (cases "addRoots h [] ctx KContext") (simp_all add: mergedRoots_def mapOutcome_def)
  then show ?thesis by (simp add: getPathAccessType_def cong: if_cong)
qed

lemma mergedRoots_trimmed:
  "mergedRoots h (filter (\<lambda>e. e \<noteq> []) (map trim ctx)) (filter (\<lambda>e. e \<noteq> []) (map trim exp)) =
   mergedRoots h ctx exp"
  by (simp add: mergedRoots_def addRoots_trimmed)

text \<open>
  C9: an entry that is blank after trimming leaves the map of roots as it is, an entry
  counts as its trimmed form, and so the map of merged roots and the access class are
  those of the lists with every entry trimmed and the blank entries removed.
\<close>

theorem C9_blank_entries_skipped:
  "(trim e = [] \<longrightarrow> addRoot h roots e k = Returns roots) \<and>
   addRoot h roots (trim e) k = addRoot h roots e k \<and>
   mergedRoots h (filter (\<lambda>e. e \<noteq> []) (map trim ctx)) (filter (\<lambda>e. e \<noteq> []) (map trim exp)) =
     mergedRoots h ctx exp \<and>
   getPathAccessType h c (filter (\<lambda>e. e \<noteq> []) (map trim ctx))
       (filter (\<lambda>e. e \<noteq> []) (map trim exp)) v =
     getPathAccessType h c ctx exp v"
  by (simp add: addRoot_blank addRoot_trim getPathAccessType_mergedRoots mergedRoots_trimmed cong: if_cong)

text \<open>
  The theorem at an entry of two spaces and at lists that hold blank and padded entries.
\<close>

theorem C9_blank_entries_skipped_witness:
  "trim ''  '' = [] \<and>
   addRoot exampleHost [] ''  '' KContext = Returns [] \<and>
   getPathAccessType exampleHost ''/a/x'' [''  '', '' /a ''] [[]] ''/vault'' =
     getPathAccessType exampleHost ''/a/x'' [''/a''] [] ''/vault'' \<and>
   getPathAccessType exampleHost ''/a/x'' [''  '', '' /a ''] [[]] ''/vault'' = Returns Context"
proof -
  have blank: "trim ''  '' = []" by code_simp
  have l1: "filter (\<lambda>e. e \<noteq> []) (map trim [''  '', '' /a '']) = [''/a'']" by code_simp
  have l2: "filter (\<lambda>e. e \<noteq> []) (map trim [[]]) = []" by code_simp
  have r: "getPathAccessType exampleHost ''/a/x'' [''/a''] [] ''/vault'' = Returns Context"
    by code_simp
  from C9_blank_entries_skipped[of "''  ''" exampleHost "[]" KContext "[''  '', '' /a '']" "[[]]"
        "''/a/x''" "''/vault''"] blank r
  show ?thesis unfolding l1 l2 by simp
qed

section \<open>C4: the walk to the nearest existing ancestor\<close>

lemma walkUp_step:
  assumes "\<not> resolvable h c" and "path_dirname h c \<noteq> c"
  shows "walkUp h a c s = walkUp h a (path_dirname h c) (s @ [path_basename h c])"
proof -
  from assms(1) have "(if existsSync h c then realpath h c else None) = None"
    by (auto simp: resolvable_def)
  then show ?thesis using assms(2) by (subst walkUp.simps) (simp add: Let_def)
qed

lemma walkUp_stop:
  assumes "existsSync h c" and "realpath h c = Some r"
  shows "walkUp h a c s = Some (if s \<noteq> [] then path_join h (r # rev s) else r)"
  using assms by (subst walkUp.simps) simp

lemma walkUp_fixed:
  assumes "\<not> resolvable h c" and "path_dirname h c = c"
  shows "walkUp h a c s = Some a"
proof -
  from assms(1) have "(if existsSync h c then realpath h c else None) = None"
    by (auto simp: resolvable_def)
  then show ?thesis using assms(2) by (subst walkUp.simps) (simp add: Let_def)
qed

lemma walkUp_found:
  assumes "\<forall>i<n. \<not> resolvable h ((path_dirname h ^^ i) c)
                \<and> (path_dirname h ^^ Suc i) c \<noteq> (path_dirname h ^^ i) c"
    and "existsSync h ((path_dirname h ^^ n) c)"
    and "realpath h ((path_dirname h ^^ n) c) = Some r"
  shows "walkUp h a c s =
         Some (if s = [] \<and> n = 0 then r
               else path_join h (r # rev (s @ map (\<lambda>i. path_basename h ((path_dirname h ^^ i) c)) [0..<n])))"
  using assms
proof (induction n arbitrary: c s)
  case 0
  then show ?case using walkUp_stop[of h c r a s] by simp
next
  case (Suc n)
  from Suc.prems(1) have c0: "\<not> resolvable h c" and c1: "path_dirname h c \<noteq> c"
    by force+
  have swap: "\<And>i. (path_dirname h ^^ i) (path_dirname h c) = (path_dirname h ^^ Suc i) c"
    by (simp add: funpow_swap1)
  have p1: "\<forall>i<n. \<not> resolvable h ((path_dirname h ^^ i) (path_dirname h c))
                \<and> (path_dirname h ^^ Suc i) (path_dirname h c) \<noteq> (path_dirname h ^^ i) (path_dirname h c)"
  proof (intro allI impI)
    fix i assume "i < n"
    then have "Suc i < Suc n" by simp
    with Suc.prems(1) have "\<not> resolvable h ((path_dirname h ^^ Suc i) c)
        \<and> (path_dirname h ^^ Suc (Suc i)) c \<noteq> (path_dirname h ^^ Suc i) c" by blast
    then show "\<not> resolvable h ((path_dirname h ^^ i) (path_dirname h c))
                \<and> (path_dirname h ^^ Suc i) (path_dirname h c) \<noteq> (path_dirname h ^^ i) (path_dirname h c)"
      unfolding swap .
  qed
  have p2: "existsSync h ((path_dirname h ^^ n) (path_dirname h c))"
    using Suc.prems(2) unfolding swap .
  have p3: "realpath h ((path_dirname h ^^ n) (path_dirname h c)) = Some r"
    using Suc.prems(3) unfolding swap .
  have m: "map (\<lambda>i. path_basename h ((path_dirname h ^^ i) c)) [0..<Suc n] =
           path_basename h c # map (\<lambda>i. path_basename h ((path_dirname h ^^ i) (path_dirname h c))) [0..<n]"
    unfolding swap by (subst map_upt_Suc) simp
  have "walkUp h a c s = walkUp h a (path_dirname h c) (s @ [path_basename h c])"
    by (rule walkUp_step[OF c0 c1])
  also have "\<dots> = Some (path_join h (r # rev ((s @ [path_basename h c]) @
        map (\<lambda>i. path_basename h ((path_dirname h ^^ i) (path_dirname h c))) [0..<n])))"
    by (subst Suc.IH[OF p1 p2 p3]) simp
  finally show ?case unfolding m by simp
qed

lemma walkUp_not_found:
  assumes "\<forall>i\<le>n. \<not> resolvable h ((path_dirname h ^^ i) c)"
    and "\<forall>i<n. (path_dirname h ^^ Suc i) c \<noteq> (path_dirname h ^^ i) c"
    and "(path_dirname h ^^ Suc n) c = (path_dirname h ^^ n) c"
  shows "walkUp h a c s = Some a"
  using assms
proof (induction n arbitrary: c s)
  case 0
  then show ?case using walkUp_fixed[of h c a s] by simp
next
  case (Suc n)
  from Suc.prems(1) have c0: "\<not> resolvable h c" by force
  from Suc.prems(2) have c1: "path_dirname h c \<noteq> c" by force
  have swap: "\<And>i. (path_dirname h ^^ i) (path_dirname h c) = (path_dirname h ^^ Suc i) c"
    by (simp add: funpow_swap1)
  have p1: "\<forall>i\<le>n. \<not> resolvable h ((path_dirname h ^^ i) (path_dirname h c))"
    unfolding swap using Suc.prems(1) by (meson Suc_le_mono)
  have p2: "\<forall>i<n. (path_dirname h ^^ Suc i) (path_dirname h c) \<noteq> (path_dirname h ^^ i) (path_dirname h c)"
    unfolding swap using Suc.prems(2) by (meson Suc_less_eq)
  have p3: "(path_dirname h ^^ Suc n) (path_dirname h c) = (path_dirname h ^^ n) (path_dirname h c)"
    unfolding swap using Suc.prems(3) .
  have "walkUp h a c s = walkUp h a (path_dirname h c) (s @ [path_basename h c])"
    by (rule walkUp_step[OF c0 c1])
  also have "\<dots> = Some a" by (rule Suc.IH[OF p1 p2 p3])
  finally show ?case .
qed

lemma posix_symlink_example:
  assumes "map_of fs ''/ctx/newfile.txt'' = None" and "map_of fs ''/ctx'' = Some ''/real''"
  shows "resolveRealPath (posixHost env home cwd fs) ''/ctx/newfile.txt'' = Returns ''/real/newfile.txt''"
proof -
  let ?h = "posixHost env home cwd fs"
  have abs: "path_resolve ?h [''/ctx/newfile.txt''] = Some ''/ctx/newfile.txt''"
    unfolding posixHost_def by (simp add: posix_resolve_def posix_isAbsolute_def normalizeString_def)
  have dn: "path_dirname ?h ''/ctx/newfile.txt'' = ''/ctx''"
    unfolding posixHost_def by (simp add: posix_dirname_def posix_isAbsolute_def)
  have bn: "path_basename ?h ''/ctx/newfile.txt'' = ''newfile.txt''"
    unfolding posixHost_def by (simp add: posix_basename_def)
  have jn: "path_join ?h [''/real'', ''newfile.txt''] = ''/real/newfile.txt''"
    unfolding posixHost_def
    by (simp add: posix_join_def posix_normalize_def posix_isAbsolute_def normalizeString_def)
  have nr: "\<not> resolvable ?h ''/ctx/newfile.txt''"
    using assms(1) by (simp add: resolvable_def posixHost_def)
  have ex: "existsSync ?h ''/ctx''" and rp: "realpath ?h ''/ctx'' = Some ''/real''"
    using assms(2) by (simp_all add: posixHost_def)
  have "walkUp ?h ''/ctx/newfile.txt'' ''/ctx/newfile.txt'' [] =
        walkUp ?h ''/ctx/newfile.txt'' ''/ctx'' [''newfile.txt'']"
    using walkUp_step[OF nr, of "''/ctx/newfile.txt''" "[]"] by (simp add: dn bn)
  also have "\<dots> = Some ''/real/newfile.txt''"
    using walkUp_stop[OF ex rp, of "''/ctx/newfile.txt''" "[''newfile.txt'']"] by (simp add: jn)
  finally have w: "walkUp ?h ''/ctx/newfile.txt'' ''/ctx/newfile.txt'' [] = Some ''/real/newfile.txt''" .
  have rn: "realpath ?h ''/ctx/newfile.txt'' = None" using assms(1) by (simp add: posixHost_def)
  show ?thesis by (simp add: resolveRealPath_def abs rn w)
qed

text \<open>
  C4: when the realpath probe throws on \<open>p\<close>, the walk starts at \<open>p\<close> made absolute,
  \<open>a\<close> (and the exception of \<^verbatim>\<open>process.cwd()\<close> reaches the caller when \<open>p\<close> cannot be made
  absolute). If the first \<open>n\<close> paths of the walk do not resolve and the \<open>n\<close>-th ancestor
  exists with the canonical form \<open>r\<close>, the result is \<open>r\<close> joined with the base names of the
  stripped paths in the order they have in the path (the last one stripped comes first); if
  no path of the walk resolves up to the fixed point of \<^verbatim>\<open>path.dirname\<close>, the result is
  the absolute input. On a POSIX host where \<open>/ctx\<close> is a link to \<open>/real\<close> and
  \<open>/ctx/newfile.txt\<close> does not exist, \<open>/ctx/newfile.txt\<close> resolves to \<open>/real/newfile.txt\<close>.
\<close>

theorem C4_nearest_existing_ancestor:
  "realpath h p = None \<Longrightarrow>
     (path_resolve h [p] = Some a \<and>
      (\<forall>i<n. \<not> resolvable h (ancestor h a i) \<and> ancestor h a (Suc i) \<noteq> ancestor h a i) \<and>
      existsSync h (ancestor h a n) \<and> realpath h (ancestor h a n) = Some r
      \<longrightarrow> resolveRealPath h p =
            Returns (if n = 0 then r
                     else path_join h (r # map (\<lambda>i. path_basename h (ancestor h a i)) (rev [0..<n])))) \<and>
     (path_resolve h [p] = Some a \<and>
      (\<forall>i\<le>n. \<not> resolvable h (ancestor h a i)) \<and>
      (\<forall>i<n. ancestor h a (Suc i) \<noteq> ancestor h a i) \<and>
      ancestor h a (Suc n) = ancestor h a n
      \<longrightarrow> resolveRealPath h p = Returns a) \<and>
     (path_resolve h [p] = None \<longrightarrow> resolveRealPath h p = Raises CwdError) \<and>
     (map_of fs ''/ctx/newfile.txt'' = None \<and> map_of fs ''/ctx'' = Some ''/real''
      \<longrightarrow> resolveRealPath (posixHost env home cwd fs) ''/ctx/newfile.txt'' = Returns ''/real/newfile.txt'')"
proof -
  assume rn: "realpath h p = None"
  have found: "resolveRealPath h p =
            Returns (if n = 0 then r
                     else path_join h (r # map (\<lambda>i. path_basename h (ancestor h a i)) (rev [0..<n])))"
    if pa: "path_resolve h [p] = Some a"
      and a: "\<forall>i<n. \<not> resolvable h (ancestor h a i) \<and> ancestor h a (Suc i) \<noteq> ancestor h a i"
      and b: "existsSync h (ancestor h a n)" and c: "realpath h (ancestor h a n) = Some r"
  proof -
    have "walkUp h a a [] =
          Some (if [] = ([] :: string list) \<and> n = 0 then r
                else path_join h (r # rev ([] @ map (\<lambda>i. path_basename h ((path_dirname h ^^ i) a)) [0..<n])))"
      by (rule walkUp_found[OF a[unfolded ancestor_def] b[unfolded ancestor_def] c[unfolded ancestor_def]])
    then show ?thesis by (simp add: resolveRealPath_def rn pa ancestor_def rev_map)
  qed
  have lost: "resolveRealPath h p = Returns a"
    if pa: "path_resolve h [p] = Some a"
      and a: "\<forall>i\<le>n. \<not> resolvable h (ancestor h a i)"
      and b: "\<forall>i<n. ancestor h a (Suc i) \<noteq> ancestor h a i"
      and c: "ancestor h a (Suc n) = ancestor h a n"
  proof -
    have "walkUp h a a [] = Some a"
      by (rule walkUp_not_found[OF a[unfolded ancestor_def] b[unfolded ancestor_def] c[unfolded ancestor_def]])
    then show ?thesis by (simp add: resolveRealPath_def rn pa)
  qed
  have gone: "resolveRealPath h p = Raises CwdError" if "path_resolve h [p] = None"
    using that by (simp add: resolveRealPath_def rn)
  show ?thesis using found lost gone posix_symlink_example by blast
qed

text \<open>
  The theorem at the example host: \<open>/ctx/x/newfile.txt\<close> loses two segments before the
  link \<open>/ctx\<close> resolves. On a host whose file system is empty no path of the walk
  resolves, and the result is the absolute input; a relative path cannot be made absolute
  on the host without a working directory.
\<close>

theorem C4_nearest_existing_ancestor_witness:
  "realpath exampleHost ''/ctx/x/newfile.txt'' = None \<and>
   resolveRealPath exampleHost ''/ctx/x/newfile.txt'' = Returns ''/real/x/newfile.txt'' \<and>
   resolveRealPath exampleHost ''/ctx/newfile.txt'' = Returns ''/real/newfile.txt'' \<and>
   resolveRealPath (posixHost [] (Some ''/home/u'') (Some ''/cwd'') []) ''/ctx/newfile.txt'' =
     Returns ''/ctx/newfile.txt'' \<and>
   resolveRealPath hostWithoutCwd ''newfile.txt'' = Raises CwdError"
proof -
  let ?e = "posixHost [] (Some ''/home/u'') (Some ''/cwd'') []"
  let ?p = "''/ctx/x/newfile.txt''"
  have rn: "realpath exampleHost ?p = None" by code_simp
  have pa: "path_resolve exampleHost [?p] = Some ?p" by code_simp
  have a0: "ancestor exampleHost ?p 0 = ''/ctx/x/newfile.txt''" by code_simp
  have a1: "ancestor exampleHost ?p (Suc 0) = ''/ctx/x''" by code_simp
  have a2: "ancestor exampleHost ?p (Suc (Suc 0)) = ''/ctx''" by code_simp
  have n0: "\<not> resolvable exampleHost ''/ctx/x/newfile.txt''" by code_simp
  have n1: "\<not> resolvable exampleHost ''/ctx/x''" by code_simp
  have e2: "existsSync exampleHost ''/ctx''" by code_simp
  have r2: "realpath exampleHost ''/ctx'' = Some ''/real''" by code_simp
  have b0: "path_basename exampleHost ''/ctx/x/newfile.txt'' = ''newfile.txt''" by code_simp
  have b1: "path_basename exampleHost ''/ctx/x'' = ''x''" by code_simp
  have j: "path_join exampleHost [''/real'', ''x'', ''newfile.txt''] = ''/real/x/newfile.txt''"
    by code_simp
  have chain: "\<forall>i<Suc (Suc 0). \<not> resolvable exampleHost (ancestor exampleHost ?p i)
      \<and> ancestor exampleHost ?p (Suc i) \<noteq> ancestor exampleHost ?p i"
    using a0 a1 a2 n0 n1 by (simp add: less_Suc_eq)
  have up: "rev [0..<Suc (Suc 0)] = [Suc 0, 0]" by simp
  have first: "resolveRealPath exampleHost ?p = Returns ''/real/x/newfile.txt''"
    using C4_nearest_existing_ancestor[OF rn, of ?p "Suc (Suc 0)" "''/real''"] pa chain e2 r2
    unfolding up by (simp add: a0 a1 a2 b0 b1 j)
  have m1: "map_of exampleFiles ''/ctx/newfile.txt'' = None" by code_simp
  have m2: "map_of exampleFiles ''/ctx'' = Some ''/real''" by code_simp
  have second: "resolveRealPath exampleHost ''/ctx/newfile.txt'' = Returns ''/real/newfile.txt''"
    unfolding exampleHost_def
    using C4_nearest_existing_ancestor[OF rn] m1 m2 by blast
  let ?q = "''/ctx/newfile.txt''"
  have rn': "realpath ?e ?q = None" by code_simp
  have pr: "path_resolve ?e [?q] = Some ?q" by code_simp
  have c0: "ancestor ?e ?q 0 = ''/ctx/newfile.txt''" by code_simp
  have c1: "ancestor ?e ?q (Suc 0) = ''/ctx''" by code_simp
  have c2: "ancestor ?e ?q (Suc (Suc 0)) = ''/''" by code_simp
  have c3: "ancestor ?e ?q (Suc (Suc (Suc 0))) = ''/''" by code_simp
  have d0: "\<not> resolvable ?e ''/ctx/newfile.txt''" by code_simp
  have d1: "\<not> resolvable ?e ''/ctx''" by code_simp
  have d2: "\<not> resolvable ?e ''/''" by code_simp
  have none: "\<forall>i\<le>Suc (Suc 0). \<not> resolvable ?e (ancestor ?e ?q i)"
    using c0 c1 c2 d0 d1 d2 by (simp add: le_Suc_eq)
  have steps: "\<forall>i<Suc (Suc 0). ancestor ?e ?q (Suc i) \<noteq> ancestor ?e ?q i"
    using c0 c1 c2 by (simp add: less_Suc_eq)
  have third: "resolveRealPath ?e ?q = Returns ''/ctx/newfile.txt''"
    using C4_nearest_existing_ancestor[OF rn', of ?q "Suc (Suc 0)"] none steps c2 c3 pr by simp
  have rn'': "realpath hostWithoutCwd ''newfile.txt'' = None" by code_simp
  have pn: "path_resolve hostWithoutCwd [''newfile.txt''] = None" by code_simp
  have fourth: "resolveRealPath hostWithoutCwd ''newfile.txt'' = Raises CwdError"
    using C4_nearest_existing_ancestor[OF rn''] pn by blast
  show ?thesis using rn first second third fourth by simp
qed

section \<open>The map of merged roots\<close>

lemma addRoot_eq:
  "addRoot h roots e k =
     (if trim e = [] then Returns roots
      else mapOutcome (\<lambda>resolved.
               AList.update resolved
                      ((case k of KContext \<Rightarrow> (\<lambda>f. f\<lparr>contextFlag := True\<rparr>)
                               | KExport \<Rightarrow> (\<lambda>f. f\<lparr>exportFlag := True\<rparr>))
                         (case map_of roots resolved of
                            Some f \<Rightarrow> f
                          | None \<Rightarrow> \<lparr>contextFlag = False, exportFlag = False\<rparr>))
                      roots) (resolveRoot h e))"
  by (cases "andThen (normalizePathBeforeResolution h (trim e)) (resolveRealPath h)")
     (simp_all add: addRoot_def resolveRoot_def Let_def mapOutcome_simps split: rootKind.splits)

lemma addRoot_distinct:
  "addRoot h roots e k = Returns roots' \<Longrightarrow> distinct (map fst roots) \<Longrightarrow> distinct (map fst roots')"
  by (auto simp: addRoot_eq distinct_update mapOutcome_Returns_iff split: if_splits)

lemma addRoots_distinct:
  "addRoots h roots es k = Returns roots' \<Longrightarrow> distinct (map fst roots) \<Longrightarrow> distinct (map fst roots')"
proof (induction es arbitrary: roots)
  case Nil
  then show ?case by simp
next
  case (Cons e es)
  then show ?case by (auto split: outcome.splits dest: addRoot_distinct)
qed

lemma addRoot_mono:
  assumes "addRoot h roots e k = Returns roots'" and "map_of roots r = Some f"
  shows "\<exists>g. map_of roots' r = Some g \<and> flagsLe f g"
  using assms
  by (auto simp: addRoot_eq update_conv' flagsLe_def mapOutcome_Returns_iff split: if_splits option.splits rootKind.splits)

lemma addRoots_mono:
  assumes "addRoots h roots es k = Returns roots'" and "map_of roots r = Some f"
  shows "\<exists>g. map_of roots' r = Some g \<and> flagsLe f g"
  using assms
proof (induction es arbitrary: roots f)
  case Nil
  then show ?case by (simp add: flagsLe_def)
next
  case (Cons e es)
  from Cons.prems(1) obtain r1 where r1: "addRoot h roots e k = Returns r1"
    and rest: "addRoots h r1 es k = Returns roots'" by (auto split: outcome.splits)
  from addRoot_mono[OF r1 Cons.prems(2)] obtain g1 where g1: "map_of r1 r = Some g1" "flagsLe f g1"
    by blast
  from Cons.IH[OF rest g1(1)] obtain g where "map_of roots' r = Some g" "flagsLe g1 g" by blast
  with g1(2) show ?case by (auto simp: flagsLe_def)
qed

lemma addRoot_sets:
  assumes "addRoot h roots e k = Returns roots'" and "trim e \<noteq> []" and "resolveRoot h e = Returns r"
  shows "\<exists>g. map_of roots' r = Some g \<and> hasKind k g"
  using assms
  by (auto simp: addRoot_eq update_conv' hasKind_def mapOutcome_Returns_iff split: option.splits rootKind.splits)

lemma addRoots_sets:
  assumes "addRoots h roots es k = Returns roots'" and "e \<in> set es" and "trim e \<noteq> []"
    and "resolveRoot h e = Returns r"
  shows "\<exists>g. map_of roots' r = Some g \<and> hasKind k g"
  using assms(1,2)
proof (induction es arbitrary: roots)
  case Nil
  then show ?case by simp
next
  case (Cons x es)
  from Cons.prems(1) obtain r1 where r1: "addRoot h roots x k = Returns r1"
    and rest: "addRoots h r1 es k = Returns roots'" by (auto split: outcome.splits)
  show ?case
  proof (cases "e = x")
    case True
    from addRoot_sets[OF r1[folded True] assms(3,4)]
    obtain g1 where g1: "map_of r1 r = Some g1" "hasKind k g1" by blast
    from addRoots_mono[OF rest g1(1)] obtain g where "map_of roots' r = Some g" "flagsLe g1 g" by blast
    with g1(2) show ?thesis by (auto simp: flagsLe_def hasKind_def split: rootKind.splits)
  next
    case False
    with Cons.prems(2) have "e \<in> set es" by simp
    from Cons.IH[OF rest this] show ?thesis .
  qed
qed

lemma update_flagged:
  fixes al :: "(string \<times> rootFlags) list"
  assumes "\<forall>(r, f) \<in> set al. contextFlag f \<or> exportFlag f" and "contextFlag val \<or> exportFlag val"
  shows "\<forall>(r, f) \<in> set (AList.update key val al). contextFlag f \<or> exportFlag f"
  using assms by (induction al) (auto split: if_splits)

lemma addRoot_flagged:
  assumes "addRoot h roots e k = Returns roots'"
    and "\<forall>(r, f) \<in> set roots. contextFlag f \<or> exportFlag f"
  shows "\<forall>(r, f) \<in> set roots'. contextFlag f \<or> exportFlag f"
proof (cases "trim e = []")
  case True
  with assms show ?thesis by (simp add: addRoot_eq)
next
  case False
  with assms(1) obtain resolved where rr: "resolveRoot h e = Returns resolved"
    by (auto simp: addRoot_eq mapOutcome_Returns_iff)
  define val where "val = (case k of KContext \<Rightarrow> (\<lambda>f. f\<lparr>contextFlag := True\<rparr>)
                               | KExport \<Rightarrow> (\<lambda>f. f\<lparr>exportFlag := True\<rparr>))
                         (case map_of roots resolved of
                            Some f \<Rightarrow> f
                          | None \<Rightarrow> \<lparr>contextFlag = False, exportFlag = False\<rparr>)"
  have v: "contextFlag val \<or> exportFlag val" by (cases k) (simp_all add: val_def)
  have "roots' = AList.update resolved val roots"
    using assms(1) False rr by (simp add: addRoot_eq val_def mapOutcome_simps)
  then show ?thesis using update_flagged[OF assms(2) v] by simp
qed

lemma addRoots_flagged:
  assumes "addRoots h roots es k = Returns roots'"
    and "\<forall>(r, f) \<in> set roots. contextFlag f \<or> exportFlag f"
  shows "\<forall>(r, f) \<in> set roots'. contextFlag f \<or> exportFlag f"
  using assms
proof (induction es arbitrary: roots)
  case Nil
  then show ?case by simp
next
  case (Cons e es)
  from Cons.prems(1) obtain r1 where r1: "addRoot h roots e k = Returns r1"
    and rest: "addRoots h r1 es k = Returns roots'" by (auto split: outcome.splits)
  from Cons.IH[OF rest addRoot_flagged[OF r1 Cons.prems(2)]] show ?case .
qed

lemma mergedRoots_distinct:
  "mergedRoots h ctx exp = Returns roots \<Longrightarrow> distinct (map fst roots)"
  by (auto simp: mergedRoots_def andThen_Returns_iff dest!: addRoots_distinct)

lemma mergedRoots_flagged:
  assumes "mergedRoots h ctx exp = Returns roots"
  shows "\<forall>(r, f) \<in> set roots. contextFlag f \<or> exportFlag f"
proof -
  from assms obtain r1 where r1: "addRoots h [] ctx KContext = Returns r1"
    and r2: "addRoots h r1 exp KExport = Returns roots"
    by (auto simp: mergedRoots_def andThen_Returns_iff)
  have "\<forall>(r, f) \<in> set r1. contextFlag f \<or> exportFlag f"
    by (rule addRoots_flagged[OF r1]) simp
  from addRoots_flagged[OF r2 this] show ?thesis .
qed

section \<open>The selection of the longest matching root\<close>

lemma isWithin_prefix: "isWithin h rc root \<Longrightarrow> take (length root) rc = root"
  by (auto simp: isWithin_iff)

lemma isWithin_same_length:
  assumes "isWithin h rc r1" and "isWithin h rc r2" and "length r1 = length r2"
  shows "r1 = r2"
proof -
  have "r1 = take (length r1) rc" using isWithin_prefix[OF assms(1)] by simp
  also have "\<dots> = take (length r2) rc" by (simp only: assms(3))
  also have "\<dots> = r2" by (rule isWithin_prefix[OF assms(2)])
  finally show ?thesis .
qed

lemma selectBest_keeps:
  assumes "\<forall>(r, f) \<in> set xs. isWithin h rc r \<longrightarrow> length r \<le> length root"
    and "root \<noteq> []"
  shows "selectBest h rc xs (Some (root, flags)) = Some (root, flags)"
  using assms(1)
proof (induction xs)
  case Nil
  show ?case by simp
next
  case (Cons x xs)
  obtain r f where x: "x = (r, f)" by (cases x)
  from Cons.prems x have "isWithin h rc r \<longrightarrow> length r \<le> length root" by simp
  then have neg: "\<not> (isWithin h rc r \<and> (case Some (root, flags) of None \<Rightarrow> True
             | Some (bestRoot, bestFlags) \<Rightarrow> bestRoot = [] \<or> length r > length bestRoot))"
    using assms(2) by auto
  have "selectBest h rc (x # xs) (Some (root, flags)) = selectBest h rc xs (Some (root, flags))"
    unfolding x by (simp only: selectBest.simps if_not_P[OF neg])
  also have "\<dots> = Some (root, flags)" using Cons by simp
  finally show ?case .
qed

lemma selectBest_longest:
  assumes "(root, flags) \<in> set xs" and "distinct (map fst xs)" and "isWithin h rc root"
    and "root \<noteq> []"
    and "\<forall>(r, f) \<in> set xs. isWithin h rc r \<longrightarrow> length r \<le> length root"
    and "case best of None \<Rightarrow> True | Some (b, bf) \<Rightarrow> b = [] \<or> length b < length root"
  shows "selectBest h rc xs best = Some (root, flags)"
  using assms(1,2,5,6)
proof (induction xs arbitrary: best)
  case Nil
  then show ?case by simp
next
  case (Cons x xs)
  obtain r f where x: "x = (r, f)" by (cases x)
  from Cons.prems(3) have rest: "\<forall>(r, f) \<in> set xs. isWithin h rc r \<longrightarrow> length r \<le> length root"
    by simp
  from Cons.prems(2) have dist: "distinct (map fst xs)" by simp
  show ?case
  proof (cases "r = root")
    case True
    with Cons.prems(1,2) x have f: "f = flags" by (auto simp: image_iff)
    have pos: "isWithin h rc r \<and> (case best of None \<Rightarrow> True
             | Some (bestRoot, bestFlags) \<Rightarrow> bestRoot = [] \<or> length r > length bestRoot)"
      using True assms(3) Cons.prems(4) by (auto split: option.splits)
    have "selectBest h rc (x # xs) best = selectBest h rc xs (Some (r, f))"
      unfolding x by (simp only: selectBest.simps if_P[OF pos])
    then show ?thesis using selectBest_keeps[OF rest assms(4)] True f by simp
  next
    case False
    with Cons.prems(1) x have mem: "(root, flags) \<in> set xs" by auto
    have short: "isWithin h rc r \<Longrightarrow> length r < length root"
    proof -
      assume w: "isWithin h rc r"
      with Cons.prems(3) x have "length r \<le> length root" by simp
      moreover have "length r \<noteq> length root"
        using isWithin_same_length[OF w assms(3)] False by auto
      ultimately show ?thesis by simp
    qed
    define best' where "best' = (if isWithin h rc r \<and> (case best of None \<Rightarrow> True
             | Some (bestRoot, bestFlags) \<Rightarrow> bestRoot = [] \<or> length r > length bestRoot)
        then Some (r, f) else best)"
    have ok: "case best' of None \<Rightarrow> True | Some (b, bf) \<Rightarrow> b = [] \<or> length b < length root"
      using short Cons.prems(4) by (auto simp: best'_def split: option.splits)
    have "selectBest h rc (x # xs) best = selectBest h rc xs best'"
      unfolding x best'_def by (simp only: selectBest.simps)
    then show ?thesis using Cons.IH[OF mem dist rest ok] by simp
  qed
qed

lemma selectBest_none:
  assumes "\<forall>(r, f) \<in> set xs. \<not> isWithin h rc r"
  shows "selectBest h rc xs best = best"
  using assms by (induction xs arbitrary: best) auto

lemma accessOf_classOf:
  "root \<noteq> [] \<Longrightarrow> contextFlag flags \<or> exportFlag flags \<Longrightarrow>
   accessOf (Some (root, flags)) = classOf flags"
  by (auto simp: accessOf_def classOf_def)

lemma getPathAccessType_longest:
  assumes "c \<noteq> []" and "resolveVault h v = Returns vr" and "resolveCandidate h c v = Returns rc"
    and "\<not> isWithin h rc vr" and "mergedRoots h ctx exp = Returns roots"
    and "(root, flags) \<in> set roots" and "root \<noteq> []" and "isWithin h rc root"
    and "\<forall>(r, f) \<in> set roots. isWithin h rc r \<longrightarrow> length r \<le> length root"
  shows "getPathAccessType h c ctx exp v = Returns (classOf flags)"
proof -
  have s: "selectBest h rc roots None = Some (root, flags)"
    by (rule selectBest_longest[OF assms(6) mergedRoots_distinct[OF assms(5)] assms(8,7,9)]) simp
  from mergedRoots_flagged[OF assms(5)] assms(6) have "contextFlag flags \<or> exportFlag flags"
    by auto
  from accessOf_classOf[OF assms(7) this] s show ?thesis
    using assms(1-5) by (simp add: getPathAccessType_mergedRoots mapOutcome_simps)
qed

section \<open>C2: the longest matching root\<close>

text \<open>
  C2, as stated, fails when the vault holds the candidate: with the vault root \<open>/a\<close> the
  merged roots \<open>/a\<close> and \<open>/a/b\<close> both match \<open>/a/b/c\<close>, and the class is \<open>vault\<close>, not the
  class \<open>export\<close> of the longest root.
\<close>

theorem C2_vault_first_counterexample:
  "mergedRoots exampleHost [''/a''] [''/a/b''] =
     Returns [(''/a'', \<lparr>contextFlag = True, exportFlag = False\<rparr>),
           (''/a/b'', \<lparr>contextFlag = False, exportFlag = True\<rparr>)] \<and>
   resolveCandidate exampleHost ''/a/b/c'' ''/a'' = Returns ''/a/b/c'' \<and>
   isWithin exampleHost ''/a/b/c'' ''/a'' \<and>
   isWithin exampleHost ''/a/b/c'' ''/a/b'' \<and>
   getPathAccessType exampleHost ''/a/b/c'' [''/a''] [''/a/b''] ''/a'' = Returns Vault"
  by code_simp

text \<open>
  C2, amended: for a candidate that is not empty and does not lie in the vault, the class
  is that of the merged root that matches the resolved candidate and is at least as long
  as every other matching root, provided this root is not the empty string. With the roots
  \<open>/a\<close> (context) and \<open>/a/b\<close> (export) of the example host, \<open>/a/b/c\<close> is \<open>export\<close> for every
  vault root that does not hold it.
\<close>

theorem C2_longest_root_wins:
  "c \<noteq> [] \<Longrightarrow> resolveVault h v = Returns vr \<Longrightarrow> resolveCandidate h c v = Returns rc \<Longrightarrow>
   \<not> isWithin h rc vr \<Longrightarrow> mergedRoots h ctx exp = Returns roots \<Longrightarrow>
   (root, flags) \<in> set roots \<Longrightarrow> root \<noteq> [] \<Longrightarrow> isWithin h rc root \<Longrightarrow>
   (\<forall>(r, f) \<in> set roots. isWithin h rc r \<longrightarrow> length r \<le> length root) \<Longrightarrow>
     getPathAccessType h c ctx exp v = Returns (classOf flags) \<and>
     (resolveVault exampleHost w = Returns wr \<and> \<not> isWithin exampleHost ''/a/b/c'' wr \<longrightarrow>
        getPathAccessType exampleHost ''/a/b/c'' [''/a''] [''/a/b''] w = Returns Export)"
proof -
  assume a: "c \<noteq> []" "resolveVault h v = Returns vr" "resolveCandidate h c v = Returns rc"
    "\<not> isWithin h rc vr" "mergedRoots h ctx exp = Returns roots" "(root, flags) \<in> set roots"
    "root \<noteq> []" "isWithin h rc root"
    "\<forall>(r, f) \<in> set roots. isWithin h rc r \<longrightarrow> length r \<le> length root"
  have general: "getPathAccessType h c ctx exp v = Returns (classOf flags)"
    by (rule getPathAccessType_longest[OF a])
  have example: "getPathAccessType exampleHost ''/a/b/c'' [''/a''] [''/a/b''] w = Returns Export"
    if wv: "resolveVault exampleHost w = Returns wr" and out: "\<not> isWithin exampleHost ''/a/b/c'' wr"
  proof -
    have n: "normalizePathBeforeResolution exampleHost ''/a/b/c'' = Returns ''/a/b/c''" by code_simp
    have ab: "path_isAbsolute exampleHost ''/a/b/c''" by code_simp
    have rr: "mapOutcome (normalizePathForComparison exampleHost)
                (resolveRealPath exampleHost ''/a/b/c'') = Returns ''/a/b/c''" by code_simp
    have cand: "resolveCandidate exampleHost ''/a/b/c'' w = Returns ''/a/b/c''"
      by (simp add: resolveCandidate_def n ab rr)
    have m: "mergedRoots exampleHost [''/a''] [''/a/b''] =
       Returns [(''/a'', \<lparr>contextFlag = True, exportFlag = False\<rparr>),
             (''/a/b'', \<lparr>contextFlag = False, exportFlag = True\<rparr>)]" by code_simp
    have w1: "isWithin exampleHost ''/a/b/c'' ''/a/b''" by code_simp
    have "getPathAccessType exampleHost ''/a/b/c'' [''/a''] [''/a/b''] w =
          Returns (classOf \<lparr>contextFlag = False, exportFlag = True\<rparr>)"
      by (rule getPathAccessType_longest[OF _ wv cand out m _ _ w1]) simp_all
    then show ?thesis by (simp add: classOf_def)
  qed
  show ?thesis using general example by blast
qed

text \<open>The theorem at the nested roots of the example host, with the vault \<open>/vault\<close>.\<close>

theorem C2_longest_root_wins_witness:
  "getPathAccessType exampleHost ''/a/b/c'' [''/a''] [''/a/b''] ''/vault'' = Returns Export"
proof -
  have ne: "''/a/b/c'' \<noteq> []" by simp
  have vr: "resolveVault exampleHost ''/vault'' = Returns ''/vault''" by code_simp
  have rc: "resolveCandidate exampleHost ''/a/b/c'' ''/vault'' = Returns ''/a/b/c''" by code_simp
  have out: "\<not> isWithin exampleHost ''/a/b/c'' ''/vault''" by code_simp
  have m: "mergedRoots exampleHost [''/a''] [''/a/b''] =
     Returns [(''/a'', \<lparr>contextFlag = True, exportFlag = False\<rparr>),
           (''/a/b'', \<lparr>contextFlag = False, exportFlag = True\<rparr>)]" by code_simp
  have mem: "(''/a/b'', \<lparr>contextFlag = False, exportFlag = True\<rparr>) \<in>
     set [(''/a'', \<lparr>contextFlag = True, exportFlag = False\<rparr>),
          (''/a/b'', \<lparr>contextFlag = False, exportFlag = True\<rparr>)]" by simp
  have nz: "''/a/b'' \<noteq> []" by simp
  have w1: "isWithin exampleHost ''/a/b/c'' ''/a/b''" by code_simp
  have longest: "\<forall>(r, f) \<in> set [(''/a'', \<lparr>contextFlag = True, exportFlag = False\<rparr>),
          (''/a/b'', \<lparr>contextFlag = False, exportFlag = True\<rparr>)].
        isWithin exampleHost ''/a/b/c'' r \<longrightarrow> length r \<le> length ''/a/b''" by simp
  from C2_longest_root_wins[OF ne vr rc out m mem nz w1 longest]
  show ?thesis by (simp add: classOf_def)
qed

section \<open>C3: a root of both lists\<close>

text \<open>
  C3, as stated, fails below a longer root: \<open>/a\<close> is in both lists and \<open>/a/b/c\<close> lies
  below it, but the context root \<open>/a/b\<close> is longer and the class is \<open>context\<close>.
\<close>

theorem C3_nested_root_counterexample:
  "mergedRoots exampleHost [''/a'', ''/a/b''] [''/a''] =
     Returns [(''/a'', \<lparr>contextFlag = True, exportFlag = True\<rparr>),
           (''/a/b'', \<lparr>contextFlag = True, exportFlag = False\<rparr>)] \<and>
   resolveCandidate exampleHost ''/a/b/c'' ''/vault'' = Returns ''/a/b/c'' \<and>
   isWithin exampleHost ''/a/b/c'' ''/a'' \<and>
   getPathAccessType exampleHost ''/a/b/c'' [''/a'', ''/a/b''] [''/a''] ''/vault'' = Returns Context"
  by code_simp

text \<open>
  C3, amended: when an entry of the context list and an entry of the export list, neither
  of them blank, resolve to the same canonical path, the map of merged roots holds this path
  once, with both flags; the class is \<open>readwrite\<close> for every candidate that is not empty,
  lies outside the vault and matches this root, provided no longer merged root matches the
  candidate too (and the root is not the empty string).
\<close>

theorem C3_readwrite_merge:
  "c \<noteq> [] \<Longrightarrow> resolveVault h v = Returns vr \<Longrightarrow> resolveCandidate h c v = Returns rc \<Longrightarrow>
   \<not> isWithin h rc vr \<Longrightarrow> mergedRoots h ctx exp = Returns roots \<Longrightarrow>
   e1 \<in> set ctx \<Longrightarrow> e2 \<in> set exp \<Longrightarrow> trim e1 \<noteq> [] \<Longrightarrow> trim e2 \<noteq> [] \<Longrightarrow>
   resolveRoot h e1 = Returns root \<Longrightarrow> resolveRoot h e2 = Returns root \<Longrightarrow>
   root \<noteq> [] \<Longrightarrow> isWithin h rc root \<Longrightarrow>
   (\<forall>(r, f) \<in> set roots. isWithin h rc r \<longrightarrow> length r \<le> length root) \<Longrightarrow>
     map_of roots root = Some \<lparr>contextFlag = True, exportFlag = True\<rparr> \<and>
     distinct (map fst roots) \<and>
     getPathAccessType h c ctx exp v = Returns Readwrite"
proof -
  assume a: "c \<noteq> []" "resolveVault h v = Returns vr" "resolveCandidate h c v = Returns rc"
    "\<not> isWithin h rc vr" "mergedRoots h ctx exp = Returns roots"
    and e: "e1 \<in> set ctx" "e2 \<in> set exp" "trim e1 \<noteq> []" "trim e2 \<noteq> []"
    "resolveRoot h e1 = Returns root" "resolveRoot h e2 = Returns root"
    and b: "root \<noteq> []" "isWithin h rc root"
    "\<forall>(r, f) \<in> set roots. isWithin h rc r \<longrightarrow> length r \<le> length root"
  from a(5) obtain r1 where r1: "addRoots h [] ctx KContext = Returns r1"
    and r2: "addRoots h r1 exp KExport = Returns roots"
    by (auto simp: mergedRoots_def andThen_Returns_iff)
  from addRoots_sets[OF r1 e(1) e(3) e(5)]
  obtain g1 where g1: "map_of r1 root = Some g1" "contextFlag g1" by (auto simp: hasKind_def)
  from addRoots_mono[OF r2 g1(1)]
  obtain g2 where g2: "map_of roots root = Some g2" "flagsLe g1 g2" by blast
  from addRoots_sets[OF r2 e(2) e(4) e(6)]
  obtain g3 where g3: "map_of roots root = Some g3" "exportFlag g3" by (auto simp: hasKind_def)
  from g1(2) g2 g3 have both: "contextFlag g2 \<and> exportFlag g2" by (auto simp: flagsLe_def)
  then have g2eq: "g2 = \<lparr>contextFlag = True, exportFlag = True\<rparr>" by (cases g2) simp
  have mem: "(root, g2) \<in> set roots" by (rule map_of_SomeD[OF g2(1)])
  have "getPathAccessType h c ctx exp v = Returns (classOf g2)"
    by (rule getPathAccessType_longest[OF a mem b])
  then show ?thesis
    using g2(1) g2eq mergedRoots_distinct[OF a(5)] by (simp add: classOf_def)
qed

text \<open>
  The theorem at the example host, where the context entry \<open>/ctx\<close> is a link to the export
  entry \<open>/real\<close>: the two entries are one root, and a new file below it is \<open>readwrite\<close>.
\<close>

theorem C3_readwrite_merge_witness:
  "mergedRoots exampleHost [''/ctx''] [''/real''] =
     Returns [(''/real'', \<lparr>contextFlag = True, exportFlag = True\<rparr>)] \<and>
   getPathAccessType exampleHost ''/ctx/report.txt'' [''/ctx''] [''/real''] ''/vault'' = Returns Readwrite"
proof -
  have ne: "''/ctx/report.txt'' \<noteq> []" by simp
  have vr: "resolveVault exampleHost ''/vault'' = Returns ''/vault''" by code_simp
  have rc: "resolveCandidate exampleHost ''/ctx/report.txt'' ''/vault'' = Returns ''/real/report.txt''"
    by code_simp
  have out: "\<not> isWithin exampleHost ''/real/report.txt'' ''/vault''" by code_simp
  have m: "mergedRoots exampleHost [''/ctx''] [''/real''] =
     Returns [(''/real'', \<lparr>contextFlag = True, exportFlag = True\<rparr>)]" by code_simp
  have e1: "''/ctx'' \<in> set [''/ctx'']" and e2: "''/real'' \<in> set [''/real'']" by simp_all
  have t1: "trim ''/ctx'' \<noteq> []" and t2: "trim ''/real'' \<noteq> []" by code_simp+
  have q1: "resolveRoot exampleHost ''/ctx'' = Returns ''/real''" by code_simp
  have q2: "resolveRoot exampleHost ''/real'' = Returns ''/real''" by code_simp
  have nz: "''/real'' \<noteq> []" by simp
  have w1: "isWithin exampleHost ''/real/report.txt'' ''/real''" by code_simp
  have longest: "\<forall>(r, f) \<in> set [(''/real'', \<lparr>contextFlag = True, exportFlag = True\<rparr>)].
        isWithin exampleHost ''/real/report.txt'' r \<longrightarrow> length r \<le> length ''/real''" by simp
  from C3_readwrite_merge[OF ne vr rc out m e1 e2 t1 t2 q1 q2 nz w1 longest] m
  show ?thesis by simp
qed

section \<open>C5: the list predicates and the classifier\<close>

lemma anyRootContains_eq:
  assumes "\<forall>e \<in> set ps. \<exists>r. resolveEntry h e = Returns r"
  shows "anyRootContains h rc ps =
         Returns (\<exists>e \<in> set ps. \<exists>r. resolveEntry h e = Returns r \<and> isWithin h rc r)"
  using assms
proof (induction ps)
  case Nil
  show ?case by simp
next
  case (Cons p ps)
  from Cons.prems obtain q where q: "andThen (normalizePathBeforeResolution h p) (resolveRealPath h) = Returns q"
    by (auto simp: resolveEntry_def mapOutcome_Returns_iff)
  then have e: "resolveEntry h p = Returns (normalizePathForComparison h q)"
    by (simp add: resolveEntry_def mapOutcome_simps)
  from Cons.prems have "\<forall>e \<in> set ps. \<exists>r. resolveEntry h e = Returns r" by simp
  from Cons.IH[OF this] show ?case using q e by auto
qed

lemma addRoot_keys:
  assumes "addRoot h roots e k = Returns roots'"
  shows "fst ` set roots' =
         fst ` set roots \<union> {r. trim e \<noteq> [] \<and> resolveRoot h e = Returns r}"
proof (cases "trim e = []")
  case True
  with assms show ?thesis by (simp add: addRoot_eq)
next
  case False
  with assms obtain resolved val where rr: "resolveRoot h e = Returns resolved"
    and upd: "roots' = AList.update resolved val roots"
    by (auto simp: addRoot_eq mapOutcome_Returns_iff)
  have "fst ` set roots' = {resolved} \<union> fst ` set roots" unfolding upd by (rule dom_update)
  then show ?thesis using False rr by auto
qed

lemma addRoot_resolves:
  "addRoot h roots e k = Returns roots' \<Longrightarrow> trim e \<noteq> [] \<Longrightarrow> \<exists>r. resolveRoot h e = Returns r"
  by (auto simp: addRoot_eq mapOutcome_Returns_iff)

lemma addRoots_keys:
  assumes "addRoots h roots es k = Returns roots'"
  shows "fst ` set roots' =
         fst ` set roots \<union> {r. \<exists>e \<in> set es. trim e \<noteq> [] \<and> resolveRoot h e = Returns r}
         \<and> (\<forall>e \<in> set es. trim e \<noteq> [] \<longrightarrow> (\<exists>r. resolveRoot h e = Returns r))"
  using assms
proof (induction es arbitrary: roots)
  case Nil
  then show ?case by simp
next
  case (Cons x es)
  from Cons.prems obtain r1 where r1: "addRoot h roots x k = Returns r1"
    and rest: "addRoots h r1 es k = Returns roots'" by (auto split: outcome.splits)
  from Cons.IH[OF rest] addRoot_keys[OF r1] addRoot_resolves[OF r1]
  show ?case by auto
qed

lemma update_unflagged:
  fixes al :: "(string \<times> rootFlags) list"
  assumes "\<forall>(r, f) \<in> set al. P f" and "P val"
  shows "\<forall>(r, f) \<in> set (AList.update key val al). P f"
  using assms by (induction al) (auto split: if_splits)

lemma addRoot_one_kind:
  assumes "addRoot h roots e k = Returns roots'" and "\<forall>(r, f) \<in> set roots. f = g"
    and "g = (case k of KContext \<Rightarrow> \<lparr>contextFlag = True, exportFlag = False\<rparr>
                      | KExport \<Rightarrow> \<lparr>contextFlag = False, exportFlag = True\<rparr>)"
  shows "\<forall>(r, f) \<in> set roots'. f = g"
proof (cases "trim e = []")
  case True
  with assms show ?thesis by (simp add: addRoot_eq)
next
  case False
  with assms(1) obtain resolved where rr: "resolveRoot h e = Returns resolved"
    by (auto simp: addRoot_eq mapOutcome_Returns_iff)
  define val where "val = (case k of KContext \<Rightarrow> (\<lambda>f. f\<lparr>contextFlag := True\<rparr>)
                               | KExport \<Rightarrow> (\<lambda>f. f\<lparr>exportFlag := True\<rparr>))
                         (case map_of roots resolved of
                            Some f \<Rightarrow> f
                          | None \<Rightarrow> \<lparr>contextFlag = False, exportFlag = False\<rparr>)"
  have "map_of roots resolved = None \<or> map_of roots resolved = Some g"
    using assms(2) by (cases "map_of roots resolved") (auto dest: map_of_SomeD)
  then have v: "val = g" by (cases k) (auto simp: val_def assms(3))
  have "roots' = AList.update resolved val roots"
    using assms(1) False rr by (simp add: addRoot_eq val_def mapOutcome_simps)
  then show ?thesis using update_unflagged[of roots "\<lambda>f. f = g" val resolved] assms(2) v by simp
qed

lemma addRoots_one_kind:
  assumes "addRoots h roots es k = Returns roots'" and "\<forall>(r, f) \<in> set roots. f = g"
    and "g = (case k of KContext \<Rightarrow> \<lparr>contextFlag = True, exportFlag = False\<rparr>
                      | KExport \<Rightarrow> \<lparr>contextFlag = False, exportFlag = True\<rparr>)"
  shows "\<forall>(r, f) \<in> set roots'. f = g"
  using assms(1,2)
proof (induction es arbitrary: roots)
  case Nil
  then show ?case by simp
next
  case (Cons x es)
  from Cons.prems(1) obtain r1 where r1: "addRoot h roots x k = Returns r1"
    and rest: "addRoots h r1 es k = Returns roots'" by (auto split: outcome.splits)
  from Cons.IH[OF rest addRoot_one_kind[OF r1 Cons.prems(2) assms(3)]] show ?case .
qed

lemma selectBest_mem:
  "selectBest h rc xs best = Some (r, f) \<Longrightarrow> (r, f) \<in> set xs \<or> best = Some (r, f)"
proof (induction xs arbitrary: best)
  case Nil
  then show ?case by simp
next
  case (Cons x xs)
  obtain r' f' where x: "x = (r', f')" by (cases x)
  from Cons.prems[unfolded x selectBest.simps] Cons.IH
  show ?case unfolding x by (fastforce split: if_splits)
qed

lemma selectBest_some:
  "best \<noteq> None \<or> (\<exists>(r, f) \<in> set xs. isWithin h rc r) \<Longrightarrow> selectBest h rc xs best \<noteq> None"
proof (induction xs arbitrary: best)
  case Nil
  then show ?case by simp
next
  case (Cons x xs)
  obtain r' f' where x: "x = (r', f')" by (cases x)
  define best' where "best' = (if isWithin h rc r' \<and> (case best of None \<Rightarrow> True
             | Some (bestRoot, bestFlags) \<Rightarrow> bestRoot = [] \<or> length r' > length bestRoot)
        then Some (r', f') else best)"
  have step: "selectBest h rc (x # xs) best = selectBest h rc xs best'"
    unfolding x best'_def by (simp only: selectBest.simps)
  have "best' \<noteq> None \<or> (\<exists>(r, f) \<in> set xs. isWithin h rc r)"
    using Cons.prems x by (cases best) (auto simp: best'_def)
  from Cons.IH[OF this] step show ?case by simp
qed

lemma mergedRoots_context_only: "mergedRoots h ps [] = addRoots h [] ps KContext"
  by (cases "addRoots h [] ps KContext") (simp_all add: mergedRoots_def)

lemma mergedRoots_export_only: "mergedRoots h [] ps = addRoots h [] ps KExport"
  by (simp add: mergedRoots_def)

lemma one_list_access:
  assumes c: "c \<noteq> []" and vr: "resolveVault h v = Returns vr" and rc: "resolveCandidate h c v = Returns rc"
    and out: "\<not> isWithin h rc vr" and m: "mergedRoots h ctx exp = Returns roots"
    and g: "\<forall>(r, f) \<in> set roots. f = g" and ne: "\<forall>(r, f) \<in> set roots. r \<noteq> []"
    and gf: "contextFlag g \<or> exportFlag g"
  shows "getPathAccessType h c ctx exp v =
         Returns (if \<exists>(r, f) \<in> set roots. isWithin h rc r then classOf g else NoAccess)"
proof (cases "\<exists>(r, f) \<in> set roots. isWithin h rc r")
  case True
  then have "selectBest h rc roots None \<noteq> None" using selectBest_some[of None roots h rc] by simp
  then obtain r f where s: "selectBest h rc roots None = Some (r, f)" by auto
  from selectBest_mem[OF s] have mem: "(r, f) \<in> set roots" by simp
  with g ne have "f = g" "r \<noteq> []" by auto
  with gf have "accessOf (Some (r, f)) = classOf g" by (simp add: accessOf_classOf)
  with s True show ?thesis using c vr rc out m by (simp add: getPathAccessType_mergedRoots mapOutcome_simps)
next
  case False
  then have "selectBest h rc roots None = None" using selectBest_none[of roots h rc None] by auto
  with False show ?thesis using c vr rc out m
    by (simp add: getPathAccessType_mergedRoots accessOf_def mapOutcome_simps)
qed

lemma resolveRoot_trimmed: "trim e = e \<Longrightarrow> resolveRoot h e = resolveEntry h e"
  by (simp add: resolveRoot_def resolveEntry_def)

lemma anyRootContains_roots:
  assumes tr: "\<forall>e \<in> set ps. e \<noteq> [] \<and> trim e = e"
    and m: "addRoots h [] ps k = Returns roots"
  shows "anyRootContains h rc ps = Returns (\<exists>(r, f) \<in> set roots. isWithin h rc r)"
proof -
  from addRoots_keys[OF m]
  have keys: "fst ` set roots = {r. \<exists>e \<in> set ps. trim e \<noteq> [] \<and> resolveRoot h e = Returns r}"
    and res: "\<forall>e \<in> set ps. trim e \<noteq> [] \<longrightarrow> (\<exists>r. resolveRoot h e = Returns r)" by simp_all
  have same: "\<And>e. e \<in> set ps \<Longrightarrow> trim e \<noteq> [] \<and> resolveRoot h e = resolveEntry h e"
    using tr resolveRoot_trimmed by auto
  have "\<forall>e \<in> set ps. \<exists>r. resolveEntry h e = Returns r" using res same by fastforce
  from anyRootContains_eq[OF this]
  have "anyRootContains h rc ps =
        Returns (\<exists>e \<in> set ps. \<exists>r. resolveEntry h e = Returns r \<and> isWithin h rc r)" .
  also have "(\<exists>e \<in> set ps. \<exists>r. resolveEntry h e = Returns r \<and> isWithin h rc r) =
             (\<exists>r \<in> fst ` set roots. isWithin h rc r)"
    unfolding keys using same by fastforce
  also have "\<dots> = (\<exists>(r, f) \<in> set roots. isWithin h rc r)" by force
  finally show ?thesis .
qed

text \<open>
  C5 fails on the handling of list entries: the loops of the two predicates lack the step
  of \<^verbatim>\<open>addRoot\<close> that trims an entry and skips it when it is blank. A predicate resolves
  an empty entry to the working directory and allows \<open>/cwd/x\<close>, where the classifier skips
  the entry and builds no root; and a predicate takes the padded entry \<open>" /a"\<close> as a relative
  path and rejects \<open>/a/x\<close>, where the classifier trims the entry and answers \<open>export\<close>.
\<close>

theorem C5_list_entries_diverge:
  "isPathInAllowedContextPaths exampleHost ''/cwd/x'' [[]] ''/vault'' = Returns True \<and>
   mergedRoots exampleHost [[]] [] = Returns [] \<and>
   getPathAccessType exampleHost ''/cwd/x'' [[]] [] ''/vault'' = Returns NoAccess \<and>
   isPathInAllowedExportPaths exampleHost ''/a/x'' ['' /a''] ''/vault'' = Returns False \<and>
   getPathAccessType exampleHost ''/a/x'' [] ['' /a''] ''/vault'' = Returns Export"
  by code_simp

text \<open>
  Where the step is not missed the predicates and the classifier agree: for a list whose
  entries are not blank and carry no white space at either end, a list predicate returns
  true exactly when one of the roots that the classifier builds from this list alone
  matches the resolved candidate; for a candidate that is not empty and lies outside the
  vault this is exactly when the classifier, given the list as its context list (its
  export list), answers \<open>context\<close> (\<open>export\<close>), provided no root is the empty string.
\<close>

lemma list_predicates_agree:
  "(\<forall>e \<in> set ps. e \<noteq> [] \<and> trim e = e) \<Longrightarrow> resolveCandidate h c v = Returns rc \<Longrightarrow>
   mergedRoots h ps [] = Returns croots \<Longrightarrow> mergedRoots h [] ps = Returns eroots \<Longrightarrow>
     isPathInAllowedContextPaths h c ps v = Returns (\<exists>(r, f) \<in> set croots. isWithin h rc r) \<and>
     isPathInAllowedExportPaths h c ps v = Returns (\<exists>(r, f) \<in> set eroots. isWithin h rc r) \<and>
     (c \<noteq> [] \<and> isPathWithinVault h c v = Returns False \<and> (\<forall>(r, f) \<in> set croots. r \<noteq> []) \<longrightarrow>
        (isPathInAllowedContextPaths h c ps v = Returns True) =
          (getPathAccessType h c ps [] v = Returns Context) \<and>
        (isPathInAllowedExportPaths h c ps v = Returns True) =
          (getPathAccessType h c [] ps v = Returns Export))"
proof -
  assume tr: "\<forall>e \<in> set ps. e \<noteq> [] \<and> trim e = e" and rc: "resolveCandidate h c v = Returns rc"
    and mc: "mergedRoots h ps [] = Returns croots" and me: "mergedRoots h [] ps = Returns eroots"
  have ac: "addRoots h [] ps KContext = Returns croots" using mc by (simp add: mergedRoots_context_only)
  have ae: "addRoots h [] ps KExport = Returns eroots" using me by (simp add: mergedRoots_export_only)
  have pc: "isPathInAllowedContextPaths h c ps v = Returns (\<exists>(r, f) \<in> set croots. isWithin h rc r)"
  proof (cases "ps = []")
    case True
    with ac show ?thesis by (auto simp: isPathInAllowedContextPaths_def)
  next
    case False
    then show ?thesis
      using anyRootContains_roots[OF tr ac, of rc] rc by (simp add: isPathInAllowedContextPaths_def)
  qed
  have pe: "isPathInAllowedExportPaths h c ps v = Returns (\<exists>(r, f) \<in> set eroots. isWithin h rc r)"
  proof (cases "ps = []")
    case True
    with ae show ?thesis by (auto simp: isPathInAllowedExportPaths_def)
  next
    case False
    then show ?thesis
      using anyRootContains_roots[OF tr ae, of rc] rc by (simp add: isPathInAllowedExportPaths_def)
  qed
  have third: "(isPathInAllowedContextPaths h c ps v = Returns True) =
          (getPathAccessType h c ps [] v = Returns Context) \<and>
        (isPathInAllowedExportPaths h c ps v = Returns True) =
          (getPathAccessType h c [] ps v = Returns Export)"
    if c: "c \<noteq> []" and iv: "isPathWithinVault h c v = Returns False"
      and ne: "\<forall>(r, f) \<in> set croots. r \<noteq> []"
  proof -
    from iv rc obtain vr where vr: "resolveVault h v = Returns vr" and out: "\<not> isWithin h rc vr"
      by (auto simp: isPathWithinVault_def andThen_Returns_iff)
    note kc = addRoots_keys[OF ac, THEN conjunct1] and ke = addRoots_keys[OF ae, THEN conjunct1]
    have same_keys: "fst ` set eroots = fst ` set croots" by (simp only: kc ke)
    have ne': "\<forall>(r, f) \<in> set eroots. r \<noteq> []"
    proof (intro ballI, clarify)
      fix f assume "([], f) \<in> set eroots"
      then have "[] \<in> fst ` set eroots" by force
      then have "[] \<in> fst ` set croots" by (simp only: same_keys)
      with ne show False by force
    qed
    have gc: "\<forall>(r, f) \<in> set croots. f = \<lparr>contextFlag = True, exportFlag = False\<rparr>"
      by (rule addRoots_one_kind[OF ac]) simp_all
    have ge: "\<forall>(r, f) \<in> set eroots. f = \<lparr>contextFlag = False, exportFlag = True\<rparr>"
      by (rule addRoots_one_kind[OF ae]) simp_all
    define P where "P = (\<exists>(r, f) \<in> set croots. isWithin h rc r)"
    define Q where "Q = (\<exists>(r, f) \<in> set eroots. isWithin h rc r)"
    have g1: "getPathAccessType h c ps [] v =
          Returns (if \<exists>(r, f) \<in> set croots. isWithin h rc r
                then classOf \<lparr>contextFlag = True, exportFlag = False\<rparr> else NoAccess)"
      by (rule one_list_access[OF c vr rc out mc gc ne]) simp
    have g2: "getPathAccessType h c [] ps v =
          Returns (if \<exists>(r, f) \<in> set eroots. isWithin h rc r
                then classOf \<lparr>contextFlag = False, exportFlag = True\<rparr> else NoAccess)"
      by (rule one_list_access[OF c vr rc out me ge ne']) simp
    have c1: "classOf \<lparr>contextFlag = True, exportFlag = False\<rparr> = Context"
      and c2: "classOf \<lparr>contextFlag = False, exportFlag = True\<rparr> = Export"
      by (simp_all add: classOf_def)
    have "(isPathInAllowedContextPaths h c ps v = Returns True) =
          (getPathAccessType h c ps [] v = Returns Context)"
      unfolding pc g1 c1 P_def[symmetric] by (cases P) simp_all
    moreover have "(isPathInAllowedExportPaths h c ps v = Returns True) =
          (getPathAccessType h c [] ps v = Returns Export)"
      unfolding pe g2 c2 Q_def[symmetric] by (cases Q) simp_all
    ultimately show ?thesis by (rule conjI)
  qed
  show ?thesis
  proof (intro conjI impI)
    show "isPathInAllowedContextPaths h c ps v = Returns (\<exists>(r, f) \<in> set croots. isWithin h rc r)"
      by (rule pc)
    show "isPathInAllowedExportPaths h c ps v = Returns (\<exists>(r, f) \<in> set eroots. isWithin h rc r)"
      by (rule pe)
  next
    assume a: "c \<noteq> [] \<and> isPathWithinVault h c v = Returns False \<and> (\<forall>(r, f) \<in> set croots. r \<noteq> [])"
    then have a1: "c \<noteq> []" and a2: "isPathWithinVault h c v = Returns False"
      and a3: "\<forall>(r, f) \<in> set croots. r \<noteq> []" by blast+
    from third[OF a1 a2 a3]
    show "(isPathInAllowedContextPaths h c ps v = Returns True) =
          (getPathAccessType h c ps [] v = Returns Context)" by (rule conjunct1)
    from third[OF a1 a2 a3]
    show "(isPathInAllowedExportPaths h c ps v = Returns True) =
          (getPathAccessType h c [] ps v = Returns Export)" by (rule conjunct2)
  qed
qed

text \<open>
  The agreement at the example host and the list \<open>/a\<close>, \<open>/ctx\<close>: a new file below the link
  \<open>/ctx\<close> is allowed by both predicates and classified accordingly.
\<close>

lemma list_predicates_agree_example:
  "isPathInAllowedContextPaths exampleHost ''/ctx/n.txt'' [''/a'', ''/ctx''] ''/vault'' = Returns True \<and>
   isPathInAllowedExportPaths exampleHost ''/ctx/n.txt'' [''/a'', ''/ctx''] ''/vault'' = Returns True \<and>
   getPathAccessType exampleHost ''/ctx/n.txt'' [''/a'', ''/ctx''] [] ''/vault'' = Returns Context \<and>
   getPathAccessType exampleHost ''/ctx/n.txt'' [] [''/a'', ''/ctx''] ''/vault'' = Returns Export"
proof -
  have tr: "\<forall>e \<in> set [''/a'', ''/ctx'']. e \<noteq> [] \<and> trim e = e" by code_simp
  have rc: "resolveCandidate exampleHost ''/ctx/n.txt'' ''/vault'' = Returns ''/real/n.txt''"
    by code_simp
  have mc: "mergedRoots exampleHost [''/a'', ''/ctx''] [] =
      Returns [(''/a'', \<lparr>contextFlag = True, exportFlag = False\<rparr>),
            (''/real'', \<lparr>contextFlag = True, exportFlag = False\<rparr>)]" by code_simp
  have me: "mergedRoots exampleHost [] [''/a'', ''/ctx''] =
      Returns [(''/a'', \<lparr>contextFlag = False, exportFlag = True\<rparr>),
            (''/real'', \<lparr>contextFlag = False, exportFlag = True\<rparr>)]" by code_simp
  have ne: "''/ctx/n.txt'' \<noteq> []" by simp
  have iv: "isPathWithinVault exampleHost ''/ctx/n.txt'' ''/vault'' = Returns False" by code_simp
  have nz: "\<forall>(r, f) \<in> set [(''/a'', \<lparr>contextFlag = True, exportFlag = False\<rparr>),
            (''/real'', \<lparr>contextFlag = True, exportFlag = False\<rparr>)]. r \<noteq> []" by simp
  have w: "isWithin exampleHost ''/real/n.txt'' ''/real''" by code_simp
  note T = list_predicates_agree[OF tr rc mc me]
  have p1: "isPathInAllowedContextPaths exampleHost ''/ctx/n.txt'' [''/a'', ''/ctx''] ''/vault'' = Returns True"
    using T[THEN conjunct1] w by simp
  have p2: "isPathInAllowedExportPaths exampleHost ''/ctx/n.txt'' [''/a'', ''/ctx''] ''/vault'' = Returns True"
    using T[THEN conjunct2, THEN conjunct1] w by simp
  have hyp: "''/ctx/n.txt'' \<noteq> [] \<and>
      isPathWithinVault exampleHost ''/ctx/n.txt'' ''/vault'' = Returns False \<and>
      (\<forall>(r, f) \<in> set [(''/a'', \<lparr>contextFlag = True, exportFlag = False\<rparr>),
            (''/real'', \<lparr>contextFlag = True, exportFlag = False\<rparr>)]. r \<noteq> [])"
    using ne iv nz by (intro conjI)
  note E = T[THEN conjunct2, THEN conjunct2, THEN mp, OF hyp]
  have q1: "getPathAccessType exampleHost ''/ctx/n.txt'' [''/a'', ''/ctx''] [] ''/vault'' = Returns Context"
    using E[THEN conjunct1] p1 by (rule iffD1)
  have q2: "getPathAccessType exampleHost ''/ctx/n.txt'' [] [''/a'', ''/ctx''] ''/vault'' = Returns Export"
    using E[THEN conjunct2] p2 by (rule iffD1)
  show ?thesis using p1 p2 q1 q2 by (intro conjI)
qed

section \<open>C6: exceptions, and malformed or empty candidates\<close>

text \<open>
  C6, as stated, fails in three places. The calls \<^verbatim>\<open>os.homedir()\<close> and \<^verbatim>\<open>path.resolve\<close>
  stand outside every \<^verbatim>\<open>try\<close>: in a process without a home directory a candidate in the
  home notation makes each of the four functions throw, and so does a relative vault path
  in a process whose working directory is gone. A candidate is not checked for being well
  formed: \<open>a\<close>, NUL, \<open>b\<close> names no file, the realpath probe throws on it, and the walk
  resolves it below the vault, so the classifier answers \<open>vault\<close> and
  \<^const>\<open>isPathWithinVault\<close> answers true. And the predicates resolve the empty candidate
  against the vault path like any relative path, so \<^verbatim>\<open>isPathWithinVault("", "/vault")\<close> is
  true, and so are the list predicates for a list that holds the vault root.
\<close>

theorem C6_raises_and_permits_counterexample:
  "getPathAccessType hostWithoutHome ''~/x'' [] [] ''/vault'' = Raises HomedirError \<and>
   isPathWithinVault hostWithoutHome ''~/x'' ''/vault'' = Raises HomedirError \<and>
   isPathInAllowedContextPaths hostWithoutHome ''~/x'' [''/a''] ''/vault'' = Raises HomedirError \<and>
   isPathInAllowedExportPaths hostWithoutHome ''/a/x'' [''~''] ''/vault'' = Raises HomedirError \<and>
   getPathAccessType hostWithoutCwd ''x'' [] [] ''vault'' = Raises CwdError \<and>
   isPathWithinVault hostWithoutCwd ''x'' ''vault'' = Raises CwdError \<and>
   isPathInAllowedExportPaths hostWithoutCwd ''/a/x'' [''out''] ''/vault'' = Raises CwdError \<and>
   getPathAccessType exampleHost [CHR ''a'', CHR 0x00, CHR ''b''] [] [] ''/vault'' = Returns Vault \<and>
   isPathWithinVault exampleHost [CHR ''a'', CHR 0x00, CHR ''b''] ''/vault'' = Returns True \<and>
   isPathWithinVault exampleHost [] ''/vault'' = Returns True \<and>
   isPathInAllowedContextPaths exampleHost [] [''/vault''] ''/vault'' = Returns True \<and>
   isPathInAllowedExportPaths exampleHost [] [''/vault''] ''/vault'' = Returns True"
  by code_simp

lemma andThen_Raises_iff:
  "andThen r f = Raises e \<longleftrightarrow> r = Raises e \<or> (\<exists>x. r = Returns x \<and> f x = Raises e)"
  by (cases r) auto

lemma andThen_Hangs_iff:
  "andThen r f = Hangs \<longleftrightarrow> r = Hangs \<or> (\<exists>x. r = Returns x \<and> f x = Hangs)"
  by (cases r) auto

lemma mapOutcome_Raises_iff: "mapOutcome f r = Raises e \<longleftrightarrow> r = Raises e"
  by (cases r) (auto simp: mapOutcome_def)

lemma mapOutcome_Hangs_iff: "mapOutcome f r = Hangs \<longleftrightarrow> r = Hangs"
  by (cases r) (auto simp: mapOutcome_def)

lemma normalize_Raises:
  "normalizePathBeforeResolution h p = Raises e \<Longrightarrow> thrownByRuntime h e"
  by (auto simp: normalizePathBeforeResolution_def mapOutcome_Raises_iff expandHomePath_def Let_def
      thrownByRuntime_def homedirReturns_def split: if_splits option.splits)

lemma normalize_not_Hangs: "normalizePathBeforeResolution h p \<noteq> Hangs"
  by (auto simp: normalizePathBeforeResolution_def mapOutcome_Hangs_iff expandHomePath_def Let_def
      split: if_splits option.splits)

lemma resolveRealPath_thrown: "resolveRealPath h p = Raises e \<Longrightarrow> thrownByRuntime h e"
  using resolveRealPath_Raises[of h p e] by (auto simp: thrownByRuntime_def cwdReturns_def)

lemma resolveCandidate_thrown: "resolveCandidate h c v = Raises e \<Longrightarrow> thrownByRuntime h e"
  using normalize_Raises[of h c e] resolveRealPath_thrown[of h _ e]
  by (auto simp: resolveCandidate_def andThen_Raises_iff mapOutcome_Raises_iff thrownByRuntime_def
      cwdReturns_def split: if_splits option.splits)

lemma resolveCandidate_hangs:
  "dirnameTerminates h \<Longrightarrow> resolveCandidate h c v \<noteq> Hangs"
  using normalize_not_Hangs[of h c] resolveRealPath_not_Hangs[of h]
  by (auto simp: resolveCandidate_def andThen_Hangs_iff mapOutcome_Hangs_iff
      split: if_splits option.splits)

lemma resolveVault_thrown: "resolveVault h v = Raises e \<Longrightarrow> thrownByRuntime h e"
  using resolveRealPath_thrown[of h v e] by (simp add: resolveVault_def mapOutcome_Raises_iff)

lemma resolveVault_hangs: "dirnameTerminates h \<Longrightarrow> resolveVault h v \<noteq> Hangs"
  using resolveRealPath_not_Hangs[of h v] by (simp add: resolveVault_def mapOutcome_Hangs_iff)

lemma entry_thrown:
  "andThen (normalizePathBeforeResolution h p) (resolveRealPath h) = Raises e \<Longrightarrow> thrownByRuntime h e"
  using normalize_Raises[of h p e] resolveRealPath_thrown[of h _ e]
  by (auto simp: andThen_Raises_iff)

lemma entry_hangs:
  "dirnameTerminates h \<Longrightarrow> andThen (normalizePathBeforeResolution h p) (resolveRealPath h) \<noteq> Hangs"
  using normalize_not_Hangs[of h p] resolveRealPath_not_Hangs[of h]
  by (auto simp: andThen_Hangs_iff)

lemma anyRootContains_thrown:
  "anyRootContains h rc ps = Raises e \<Longrightarrow> thrownByRuntime h e"
proof (induction ps)
  case Nil
  then show ?case by simp
next
  case (Cons p ps)
  then show ?case using entry_thrown[of h p e] by (auto split: outcome.splits if_splits)
qed

lemma anyRootContains_hangs:
  "dirnameTerminates h \<Longrightarrow> anyRootContains h rc ps \<noteq> Hangs"
proof (induction ps)
  case Nil
  then show ?case by simp
next
  case (Cons p ps)
  then show ?case using entry_hangs[of h p] by (auto split: outcome.splits if_splits)
qed

lemma addRoot_thrown: "addRoot h roots x k = Raises e \<Longrightarrow> thrownByRuntime h e"
  using entry_thrown[of h "trim x" e]
  by (auto simp: addRoot_def Let_def split: if_splits outcome.splits)

lemma addRoot_hangs: "dirnameTerminates h \<Longrightarrow> addRoot h roots x k \<noteq> Hangs"
  using entry_hangs[of h "trim x"]
  by (auto simp: addRoot_def Let_def split: if_splits outcome.splits)

lemma addRoots_thrown: "addRoots h roots xs k = Raises e \<Longrightarrow> thrownByRuntime h e"
proof (induction xs arbitrary: roots)
  case Nil
  then show ?case by simp
next
  case (Cons x xs)
  then show ?case using addRoot_thrown[of h roots x k e] by (auto split: outcome.splits)
qed

lemma addRoots_hangs: "dirnameTerminates h \<Longrightarrow> addRoots h roots xs k \<noteq> Hangs"
proof (induction xs arbitrary: roots)
  case Nil
  then show ?case by simp
next
  case (Cons x xs)
  then show ?case using addRoot_hangs[of h roots x k] by (auto split: outcome.splits)
qed

lemma getPathAccessType_thrown:
  "getPathAccessType h c ctx exp v = Raises e \<Longrightarrow> thrownByRuntime h e"
  using resolveVault_thrown[of h v e] resolveCandidate_thrown[of h c v e]
    addRoots_thrown[of h _ _ _ e]
  by (auto simp: getPathAccessType_def andThen_Raises_iff split: if_splits)

lemma getPathAccessType_hangs:
  "dirnameTerminates h \<Longrightarrow> getPathAccessType h c ctx exp v \<noteq> Hangs"
  using resolveVault_hangs[of h v] resolveCandidate_hangs[of h c v] addRoots_hangs[of h]
  by (auto simp: getPathAccessType_def andThen_Hangs_iff split: if_splits)

lemma isPathWithinVault_thrown:
  "isPathWithinVault h c v = Raises e \<Longrightarrow> thrownByRuntime h e"
  using resolveVault_thrown[of h v e] resolveCandidate_thrown[of h c v e]
  by (auto simp: isPathWithinVault_def andThen_Raises_iff)

lemma isPathWithinVault_hangs:
  "dirnameTerminates h \<Longrightarrow> isPathWithinVault h c v \<noteq> Hangs"
  using resolveVault_hangs[of h v] resolveCandidate_hangs[of h c v]
  by (auto simp: isPathWithinVault_def andThen_Hangs_iff)

lemma listPredicates_thrown:
  "isPathInAllowedContextPaths h c ps v = Raises e \<Longrightarrow> thrownByRuntime h e"
  "isPathInAllowedExportPaths h c ps v = Raises e \<Longrightarrow> thrownByRuntime h e"
  using resolveCandidate_thrown[of h c v e] anyRootContains_thrown[of h _ ps e]
  by (auto simp: isPathInAllowedContextPaths_def isPathInAllowedExportPaths_def andThen_Raises_iff
      split: if_splits)

lemma listPredicates_hangs:
  "dirnameTerminates h \<Longrightarrow> isPathInAllowedContextPaths h c ps v \<noteq> Hangs"
  "dirnameTerminates h \<Longrightarrow> isPathInAllowedExportPaths h c ps v \<noteq> Hangs"
  using resolveCandidate_hangs[of h c v] anyRootContains_hangs[of h _ ps]
  by (auto simp: isPathInAllowedContextPaths_def isPathInAllowedExportPaths_def andThen_Hangs_iff
      split: if_splits)

text \<open>
  C6, amended: the four functions raise no exception of their own. An exception that
  reaches the caller of the classifier or of one of the three predicates is the one of
  \<^verbatim>\<open>os.homedir()\<close> or the one of \<^verbatim>\<open>process.cwd()\<close>, thrown by a call that failed (an
  exception of the realpath probe is caught inside the resolver). So when these two calls
  do not throw, and \<^verbatim>\<open>path.dirname\<close> reaches a fixed point from every start, each of the
  four functions returns a value, for every candidate, every root list and every vault
  path. The classifier answers \<open>none\<close> for the empty candidate.
\<close>

theorem C6_returns_unless_runtime_throws:
  "(homedirReturns h \<and> cwdReturns h \<and> dirnameTerminates h \<longrightarrow>
      (\<exists>a. getPathAccessType h c ctx exp v = Returns a) \<and>
      (\<exists>b. isPathWithinVault h c v = Returns b) \<and>
      (\<exists>b. isPathInAllowedContextPaths h c ps v = Returns b) \<and>
      (\<exists>b. isPathInAllowedExportPaths h c ps v = Returns b)) \<and>
   (getPathAccessType h c ctx exp v = Raises e \<or> isPathWithinVault h c v = Raises e \<or>
    isPathInAllowedContextPaths h c ps v = Raises e \<or>
    isPathInAllowedExportPaths h c ps v = Raises e \<longrightarrow> thrownByRuntime h e) \<and>
   (dirnameTerminates h \<longrightarrow>
      getPathAccessType h c ctx exp v \<noteq> Hangs \<and> isPathWithinVault h c v \<noteq> Hangs \<and>
      isPathInAllowedContextPaths h c ps v \<noteq> Hangs \<and>
      isPathInAllowedExportPaths h c ps v \<noteq> Hangs) \<and>
   getPathAccessType h [] ctx exp v = Returns NoAccess"
proof (intro conjI impI)
  assume "homedirReturns h \<and> cwdReturns h \<and> dirnameTerminates h"
  then have a: "homedirReturns h" and b: "cwdReturns h" and t: "dirnameTerminates h" by blast+
  show "\<exists>a. getPathAccessType h c ctx exp v = Returns a" by (rule getPathAccessType_total[OF t b a])
  show "\<exists>b. isPathWithinVault h c v = Returns b" by (rule isPathWithinVault_total[OF t b a])
  show "\<exists>b. isPathInAllowedContextPaths h c ps v = Returns b"
    by (rule listPredicates_total(2)[OF t b a])
  show "\<exists>b. isPathInAllowedExportPaths h c ps v = Returns b"
    by (rule listPredicates_total(1)[OF t b a])
next
  assume "getPathAccessType h c ctx exp v = Raises e \<or> isPathWithinVault h c v = Raises e \<or>
    isPathInAllowedContextPaths h c ps v = Raises e \<or>
    isPathInAllowedExportPaths h c ps v = Raises e"
  then show "thrownByRuntime h e"
    using getPathAccessType_thrown isPathWithinVault_thrown listPredicates_thrown by blast
next
  assume t: "dirnameTerminates h"
  show "getPathAccessType h c ctx exp v \<noteq> Hangs" by (rule getPathAccessType_hangs[OF t])
  show "isPathWithinVault h c v \<noteq> Hangs" by (rule isPathWithinVault_hangs[OF t])
  show "isPathInAllowedContextPaths h c ps v \<noteq> Hangs" by (rule listPredicates_hangs(1)[OF t])
  show "isPathInAllowedExportPaths h c ps v \<noteq> Hangs" by (rule listPredicates_hangs(2)[OF t])
next
  show "getPathAccessType h [] ctx exp v = Returns NoAccess" by (simp add: getPathAccessType_def)
qed

text \<open>
  The theorem at the example host and the candidate \<open>/etc/passwd\<close>, and at the exception
  that the candidate \<open>~/x\<close> raises on the host without a home directory.
\<close>

theorem C6_returns_unless_runtime_throws_witness:
  "homedirReturns exampleHost \<and> cwdReturns exampleHost \<and> dirnameTerminates exampleHost \<and>
   getPathAccessType exampleHost ''/etc/passwd'' [''/a''] [''/a/b''] ''/vault'' = Returns NoAccess \<and>
   isPathWithinVault exampleHost ''/etc/passwd'' ''/vault'' = Returns False \<and>
   isPathInAllowedContextPaths exampleHost ''/etc/passwd'' [''/a''] ''/vault'' = Returns False \<and>
   getPathAccessType exampleHost [] [''/a''] [''/a/b''] ''/vault'' = Returns NoAccess \<and>
   getPathAccessType hostWithoutHome ''~/x'' [] [] ''/vault'' = Raises HomedirError \<and>
   thrownByRuntime hostWithoutHome HomedirError"
proof -
  have a: "homedirReturns exampleHost" by (rule exampleHost_homedirReturns)
  have b: "cwdReturns exampleHost" by (rule exampleHost_cwdReturns)
  have t: "dirnameTerminates exampleHost" by (rule exampleHost_terminates)
  have abt: "homedirReturns exampleHost \<and> cwdReturns exampleHost \<and> dirnameTerminates exampleHost"
    using a b t by (intro conjI)
  note T = C6_returns_unless_runtime_throws[of exampleHost "''/etc/passwd''" "[''/a'']" "[''/a/b'']"
      "''/vault''" "[''/a'']" HomedirError]
  note R = T[THEN conjunct1, THEN mp, OF abt]
  from R obtain x where x: "getPathAccessType exampleHost ''/etc/passwd'' [''/a''] [''/a/b''] ''/vault'' = Returns x"
    by blast
  have e1: "getPathAccessType exampleHost ''/etc/passwd'' [''/a''] [''/a/b''] ''/vault'' = Returns NoAccess"
    by code_simp
  have e2: "isPathWithinVault exampleHost ''/etc/passwd'' ''/vault'' = Returns False"
    by code_simp
  have e3: "isPathInAllowedContextPaths exampleHost ''/etc/passwd'' [''/a''] ''/vault'' = Returns False"
    by code_simp
  have e4: "getPathAccessType exampleHost [] [''/a''] [''/a/b''] ''/vault'' = Returns NoAccess"
    using T by (elim conjE)
  have r: "getPathAccessType hostWithoutHome ''~/x'' [] [] ''/vault'' = Raises HomedirError"
    by code_simp
  have "getPathAccessType hostWithoutHome ''~/x'' [] [] ''/vault'' = Raises HomedirError \<or>
      isPathWithinVault hostWithoutHome ''~/x'' ''/vault'' = Raises HomedirError \<or>
      isPathInAllowedContextPaths hostWithoutHome ''~/x'' [] ''/vault'' = Raises HomedirError \<or>
      isPathInAllowedExportPaths hostWithoutHome ''~/x'' [] ''/vault'' = Raises HomedirError"
    using r by (rule disjI1)
  from C6_returns_unless_runtime_throws[of hostWithoutHome "''~/x''" "[]" "[]" "''/vault''" "[]"
      HomedirError, THEN conjunct2, THEN conjunct1, THEN mp, OF this]
  have th: "thrownByRuntime hostWithoutHome HomedirError" .
  show ?thesis using a b t e1 e2 e3 e4 r th by (intro conjI)
qed

section \<open>C10: the empty entry of a list predicate\<close>

lemma normalizePathBeforeResolution_empty: "normalizePathBeforeResolution h [] = Returns []"
  by (simp add: normalizePathBeforeResolution_def translateMsysPath_def expandHomePath_def
      expandEnvironmentVariables_def mapOutcome_simps)

lemma resolveEntry_empty:
  assumes "realpath h [] = None" and "path_resolve h [[]] = Some cwd"
    and "existsSync h cwd" and "realpath h cwd = Some cwdReal"
  shows "resolveEntry h [] = Returns (normalizePathForComparison h cwdReal)"
proof -
  have "walkUp h cwd cwd [] = Some cwdReal"
    using walkUp_stop[OF assms(3,4), of cwd "[]"] by simp
  then have "resolveRealPath h [] = Returns cwdReal"
    by (simp add: resolveRealPath_def assms(1,2))
  then show ?thesis
    by (simp add: resolveEntry_def normalizePathBeforeResolution_empty mapOutcome_simps)
qed

lemma listPredicates_eq:
  assumes "ps \<noteq> []" and "\<forall>e \<in> set ps. \<exists>r. resolveEntry h e = Returns r"
    and "resolveCandidate h c v = Returns rc"
  shows "isPathInAllowedExportPaths h c ps v =
           Returns (\<exists>e \<in> set ps. \<exists>r. resolveEntry h e = Returns r \<and> isWithin h rc r)"
    and "isPathInAllowedContextPaths h c ps v =
           Returns (\<exists>e \<in> set ps. \<exists>r. resolveEntry h e = Returns r \<and> isWithin h rc r)"
  using assms(1,3) anyRootContains_eq[OF assms(2), of rc]
  by (simp_all add: isPathInAllowedExportPaths_def isPathInAllowedContextPaths_def)

text \<open>
  C10: \<^verbatim>\<open>path.resolve("")\<close> is the working directory \<open>cwd\<close>. When the realpath probe throws
  on the empty string and the working directory exists with the canonical form \<open>cwdReal\<close>,
  a list predicate resolves an empty entry to \<open>cwdReal\<close>, normalized for comparison. So
  for the list that holds the empty entry alone, a predicate answers whether the candidate
  resolves to \<open>cwdReal\<close> or below it; for a list with an empty entry, all of whose entries
  resolve, it answers whether the candidate lies at or below one of the resolved entries,
  and this is so for every candidate at or below \<open>cwdReal\<close>. The classifier builds no root
  from these entries.
\<close>

theorem C10_empty_entry_is_cwd:
  "realpath h [] = None \<Longrightarrow> path_resolve h [[]] = Some cwd \<Longrightarrow> existsSync h cwd \<Longrightarrow>
   realpath h cwd = Some cwdReal \<Longrightarrow> resolveCandidate h c v = Returns rc \<Longrightarrow>
     resolveEntry h [] = Returns (normalizePathForComparison h cwdReal) \<and>
     isPathInAllowedExportPaths h c [[]] v =
       Returns (isWithin h rc (normalizePathForComparison h cwdReal)) \<and>
     isPathInAllowedContextPaths h c [[]] v =
       Returns (isWithin h rc (normalizePathForComparison h cwdReal)) \<and>
     ([] \<in> set ps \<and> (\<forall>e \<in> set ps. \<exists>r. resolveEntry h e = Returns r) \<longrightarrow>
        isPathInAllowedExportPaths h c ps v =
          Returns (\<exists>e \<in> set ps. \<exists>r. resolveEntry h e = Returns r \<and> isWithin h rc r) \<and>
        isPathInAllowedContextPaths h c ps v =
          Returns (\<exists>e \<in> set ps. \<exists>r. resolveEntry h e = Returns r \<and> isWithin h rc r) \<and>
        (isWithin h rc (normalizePathForComparison h cwdReal) \<longrightarrow>
           isPathInAllowedExportPaths h c ps v = Returns True \<and>
           isPathInAllowedContextPaths h c ps v = Returns True)) \<and>
     mergedRoots h [[]] [[]] = Returns []"
proof -
  assume rn: "realpath h [] = None" and pr: "path_resolve h [[]] = Some cwd"
    and ex: "existsSync h cwd" and rp: "realpath h cwd = Some cwdReal"
    and rc: "resolveCandidate h c v = Returns rc"
  let ?cwdN = "normalizePathForComparison h cwdReal"
  have e: "resolveEntry h [] = Returns ?cwdN" by (rule resolveEntry_empty[OF rn pr ex rp])
  have all1: "\<forall>e \<in> set [[]]. \<exists>r. resolveEntry h e = Returns r" using e by simp
  have ne1: "[[]] \<noteq> ([] :: string list)" by simp
  have one: "(\<exists>x \<in> set [[]]. \<exists>r. resolveEntry h x = Returns r \<and> isWithin h rc r) = isWithin h rc ?cwdN"
    using e by simp
  have x1: "isPathInAllowedExportPaths h c [[]] v = Returns (isWithin h rc ?cwdN)"
    using listPredicates_eq(1)[OF ne1 all1 rc] unfolding one .
  have c1: "isPathInAllowedContextPaths h c [[]] v = Returns (isWithin h rc ?cwdN)"
    using listPredicates_eq(2)[OF ne1 all1 rc] unfolding one .
  have general: "isPathInAllowedExportPaths h c ps v =
          Returns (\<exists>e \<in> set ps. \<exists>r. resolveEntry h e = Returns r \<and> isWithin h rc r) \<and>
        isPathInAllowedContextPaths h c ps v =
          Returns (\<exists>e \<in> set ps. \<exists>r. resolveEntry h e = Returns r \<and> isWithin h rc r) \<and>
        (isWithin h rc ?cwdN \<longrightarrow>
           isPathInAllowedExportPaths h c ps v = Returns True \<and>
           isPathInAllowedContextPaths h c ps v = Returns True)"
    if m: "[] \<in> set ps" and all: "\<forall>e \<in> set ps. \<exists>r. resolveEntry h e = Returns r"
  proof -
    from m have ne: "ps \<noteq> []" by auto
    note x = listPredicates_eq(1)[OF ne all rc] and y = listPredicates_eq(2)[OF ne all rc]
    have "\<exists>e \<in> set ps. \<exists>r. resolveEntry h e = Returns r \<and> isWithin h rc r"
      if "isWithin h rc ?cwdN" using that m e by blast
    then show ?thesis using x y by simp
  qed
  have t: "trim [] = []" by (simp add: trim_def)
  have m0: "mergedRoots h [[]] [[]] = Returns []"
    by (simp add: mergedRoots_def addRoot_blank[OF t])
  show ?thesis using e x1 c1 general m0 by blast
qed

text \<open>
  The theorem at the example host, whose working directory is \<open>/cwd\<close>: with the list that
  holds the empty entry alone the candidate \<open>/cwd/x\<close> is allowed and the candidate
  \<open>/etc/passwd\<close> is not, and \<open>/cwd/x\<close> is allowed by the list \<open>/a\<close>, empty entry as well.
\<close>

theorem C10_empty_entry_is_cwd_witness:
  "resolveEntry exampleHost [] = Returns ''/cwd'' \<and>
   isPathInAllowedExportPaths exampleHost ''/cwd/x'' [[]] ''/vault'' = Returns True \<and>
   isPathInAllowedContextPaths exampleHost ''/cwd/x'' [[]] ''/vault'' = Returns True \<and>
   isPathInAllowedExportPaths exampleHost ''/etc/passwd'' [[]] ''/vault'' = Returns False \<and>
   isPathInAllowedContextPaths exampleHost ''/etc/passwd'' [[]] ''/vault'' = Returns False \<and>
   isPathInAllowedExportPaths exampleHost ''/cwd/x'' [''/a'', []] ''/vault'' = Returns True \<and>
   isPathInAllowedContextPaths exampleHost ''/cwd/x'' [''/a'', []] ''/vault'' = Returns True \<and>
   getPathAccessType exampleHost ''/cwd/x'' [[]] [[]] ''/vault'' = Returns NoAccess"
proof -
  have rn: "realpath exampleHost [] = None" by code_simp
  have pr: "path_resolve exampleHost [[]] = Some ''/cwd''" by code_simp
  have ex: "existsSync exampleHost ''/cwd''" by code_simp
  have rp: "realpath exampleHost ''/cwd'' = Some ''/cwd''" by code_simp
  have rc1: "resolveCandidate exampleHost ''/cwd/x'' ''/vault'' = Returns ''/cwd/x''" by code_simp
  have rc2: "resolveCandidate exampleHost ''/etc/passwd'' ''/vault'' = Returns ''/etc/passwd''"
    by code_simp
  have n: "normalizePathForComparison exampleHost ''/cwd'' = ''/cwd''" by code_simp
  have w1: "isWithin exampleHost ''/cwd/x'' ''/cwd''" by code_simp
  have w2: "\<not> isWithin exampleHost ''/etc/passwd'' ''/cwd''" by code_simp
  have ra: "resolveEntry exampleHost ''/a'' = Returns ''/a''" by code_simp
  note A = C10_empty_entry_is_cwd[OF rn pr ex rp rc1, of "[''/a'', []]", unfolded n]
  note B = C10_empty_entry_is_cwd[OF rn pr ex rp rc2, of "[]", unfolded n]
  have e: "resolveEntry exampleHost [] = Returns ''/cwd''" using A by (elim conjE)
  have all: "[] \<in> set [''/a'', []] \<and>
      (\<forall>e \<in> set [''/a'', []]. \<exists>r. resolveEntry exampleHost e = Returns r)"
    using e ra by simp
  have a1: "isPathInAllowedExportPaths exampleHost ''/cwd/x'' [[]] ''/vault'' = Returns True"
    using A w1 by simp
  have a2: "isPathInAllowedContextPaths exampleHost ''/cwd/x'' [[]] ''/vault'' = Returns True"
    using A w1 by simp
  have b1: "isPathInAllowedExportPaths exampleHost ''/etc/passwd'' [[]] ''/vault'' = Returns False"
    using B w2 by simp
  have b2: "isPathInAllowedContextPaths exampleHost ''/etc/passwd'' [[]] ''/vault'' = Returns False"
    using B w2 by simp
  note G = A[THEN conjunct2, THEN conjunct2, THEN conjunct2, THEN conjunct1, THEN mp, OF all,
      THEN conjunct2, THEN conjunct2, THEN mp, OF w1]
  have g: "getPathAccessType exampleHost ''/cwd/x'' [[]] [[]] ''/vault'' = Returns NoAccess"
    by code_simp
  show ?thesis using e a1 a2 b1 b2 G g by (intro conjI) simp_all
qed

section \<open>C8: normalizing twice\<close>

lemma of_char_slash: "(of_char CHR ''/'' :: nat) = 47"
  by simp

lemma letter_not_slash: "isUpperAZ d \<or> isLowerAZ d \<Longrightarrow> upperChar d \<noteq> CHR ''/''"
proof
  assume l: "isUpperAZ d \<or> isLowerAZ d" and e: "upperChar d = CHR ''/''"
  from e have n: "(of_char (upperChar d) :: nat) = 47" by simp
  show False
  proof (cases "isLowerAZ d")
    case True
    then have "(of_char (upperChar d) :: nat) = (of_char d - 32) mod 256"
      by (simp add: upperChar_def isLowerAZ_def Let_def)
    moreover from True have "97 \<le> (of_char d :: nat)" "(of_char d :: nat) \<le> 122"
      by (simp_all add: isLowerAZ_def Let_def)
    ultimately show False using n by simp
  next
    case False
    with l have u: "isUpperAZ d" by simp
    then have "upperChar d = d" by (simp add: upperChar_def isUpperAZ_def Let_def)
    with n u show False by (simp add: isUpperAZ_def Let_def)
  qed
qed

lemma letter_toUpperCase:
  assumes "isUpperAZ d \<or> isLowerAZ d"
  shows "toUpperCase [d] = [upperChar d]"
proof -
  have "(of_char d :: nat) \<noteq> 223" using assms by (auto simp: isUpperAZ_def isLowerAZ_def Let_def)
  then have "d \<noteq> CHR 0xDF" by auto
  then show ?thesis by (simp add: toUpperCase_def)
qed

lemma translateMsysPath_idem: "translateMsysPath h (translateMsysPath h e) = translateMsysPath h e"
proof (cases "win32 h")
  case False
  then show ?thesis by (simp add: translateMsysPath_def)
next
  case True
  show ?thesis
  proof (cases "translateMsysPath h e = e")
    case True
    then show ?thesis by simp
  next
    case False
    with True obtain s d restOfPath where e: "e = s # d # restOfPath"
      and l: "isUpperAZ d \<or> isLowerAZ d"
      and r: "translateMsysPath h e = toUpperCase [d] @ '':'' @
                map (\<lambda>c. if c = CHR ''/'' then bslash else c) restOfPath"
      by (auto simp: translateMsysPath_def split: list.splits if_splits)
    from letter_not_slash[OF l] show ?thesis
      unfolding r letter_toUpperCase[OF l] by (simp add: translateMsysPath_def)
  qed
qed

lemma withCallback_undefined:
  assumes "re s = Some (name, k)" and "getEnvValue h name = None"
  shows "withCallback h re s = Some (take (Suc k) s, k)"
  using assms by (simp add: withCallback_def substitute_def)

lemma withCallback_None: "re s = None \<Longrightarrow> withCallback h re s = None"
  by (simp add: withCallback_def)

lemma gsub_undefined: "\<not> meetsDefined h re s \<Longrightarrow> gsub (withCallback h re) s = s"
proof (induction h re s rule: meetsDefined.induct)
  case (1 h re)
  show ?case by simp
next
  case (2 h re c cs)
  show ?case
  proof (cases "re (c # cs)")
    case None
    with "2.prems" have "\<not> meetsDefined h re cs" by simp
    from "2.IH"(1)[OF None this] show ?thesis
      by (simp add: withCallback_None[of re "c # cs" h, OF None])
  next
    case (Some a)
    obtain name k where a: "a = (name, k)" by (cases a)
    from "2.prems" Some a have u: "getEnvValue h name = None"
      and rest: "\<not> meetsDefined h re (drop k cs)" by simp_all
    from "2.IH"(2)[OF Some a[symmetric] rest] have "gsub (withCallback h re) (drop k cs) = drop k cs" .
    then show ?thesis
      using withCallback_undefined[of re "c # cs" name k h, OF Some[unfolded a] u] by simp
  qed
qed

lemma expandEnvironmentVariables_undefined:
  assumes "\<not> hasDefinedReference h y"
  shows "expandEnvironmentVariables h y = y"
proof -
  from assms have p: "gsub (withCallback h percentRe) y = y"
    and x: "gsub (withCallback h posixRe) y = y"
    by (simp_all add: hasDefinedReference_def gsub_undefined)
  from assms have w: "win32 h \<Longrightarrow> gsub (withCallback h bangRe) y = y"
    "win32 h \<Longrightarrow> gsub (withCallback h dollarEnvRe) y = y"
    by (simp_all add: hasDefinedReference_def gsub_undefined)
  show ?thesis by (simp add: expandEnvironmentVariables_def Let_def p x w)
qed

text \<open>
  C8, as stated, fails when a variable holds a reference: \<open>$DATA\<close> expands to the text
  \<open>$HOME/data\<close>, which is not scanned again, and the second normalization expands it. It
  fails as well when the home directory is itself written in the home notation: \<open>~\<close>
  becomes \<open>~/w\<close>, and the second normalization expands that again.
\<close>

theorem C8_not_idempotent_counterexample:
  "normalizePathBeforeResolution exampleHost ''$DATA'' = Returns ''$HOME/data'' \<and>
   normalizePathBeforeResolution exampleHost ''$HOME/data'' = Returns ''/home/u/data'' \<and>
   andThen (normalizePathBeforeResolution exampleHost ''$DATA'')
       (normalizePathBeforeResolution exampleHost) \<noteq>
     normalizePathBeforeResolution exampleHost ''$DATA'' \<and>
   normalizePathBeforeResolution hostWithTildeHome ''~'' = Returns ''~/w'' \<and>
   normalizePathBeforeResolution hostWithTildeHome ''~/w'' = Returns ''~/w/w''"
  by code_simp

text \<open>
  C8, amended: on every host, when the result of normalizing \<open>x\<close> holds no reference to a
  defined variable (in a form that the platform recognizes) and does not start with the
  home notation, normalizing it again changes nothing: a reference whose variable is not
  defined, and a \<open>%\<close>, \<open>$\<close> or \<open>!\<close> that belongs to no reference, stay as they are.
\<close>

theorem C8_idempotent_without_defined_reference:
  "normalizePathBeforeResolution h x = Returns y \<Longrightarrow> \<not> hasDefinedReference h y \<Longrightarrow>
   \<not> startsWithHomePath y \<Longrightarrow>
     normalizePathBeforeResolution h y = Returns y \<and>
     andThen (normalizePathBeforeResolution h x) (normalizePathBeforeResolution h) =
       normalizePathBeforeResolution h x"
proof -
  assume r: "normalizePathBeforeResolution h x = Returns y"
    and d: "\<not> hasDefinedReference h y" and n: "\<not> startsWithHomePath y"
  from r obtain e where y: "y = translateMsysPath h e"
    by (auto simp: normalizePathBeforeResolution_def mapOutcome_Returns_iff)
  have "expandHomePath h y = Returns y"
    using n by (simp add: expandHomePath_def expandEnvironmentVariables_undefined[OF d]
        startsWithHomePath_def)
  then have "normalizePathBeforeResolution h y = Returns (translateMsysPath h y)"
    by (simp add: normalizePathBeforeResolution_def mapOutcome_simps)
  also have "translateMsysPath h y = y" unfolding y by (rule translateMsysPath_idem)
  finally have again: "normalizePathBeforeResolution h y = Returns y" .
  then show ?thesis by (simp add: r)
qed

text \<open>
  The theorem on the example host, at a value with a reference that is substituted, one
  whose variable is not defined in either form, and characters that start no reference.
\<close>

theorem C8_idempotent_without_defined_reference_witness:
  "normalizePathBeforeResolution exampleHost ''$HOME/%NONE%/${UNDEF}/$NONE/a!b/100%'' =
     Returns ''/home/u/%NONE%/${UNDEF}/$NONE/a!b/100%'' \<and>
   normalizePathBeforeResolution exampleHost ''/home/u/%NONE%/${UNDEF}/$NONE/a!b/100%'' =
     Returns ''/home/u/%NONE%/${UNDEF}/$NONE/a!b/100%'' \<and>
   normalizePathBeforeResolution exampleHost ''~/notes/$HOME'' = Returns ''/home/u/notes/home/u'' \<and>
   normalizePathBeforeResolution exampleHost ''/home/u/notes/home/u'' = Returns ''/home/u/notes/home/u''"
proof -
  let ?x = "''$HOME/%NONE%/${UNDEF}/$NONE/a!b/100%''"
  let ?y = "''/home/u/%NONE%/${UNDEF}/$NONE/a!b/100%''"
  have r: "normalizePathBeforeResolution exampleHost ?x = Returns ?y" by code_simp
  have d: "\<not> hasDefinedReference exampleHost ?y" by code_simp
  have n: "\<not> startsWithHomePath ?y" by code_simp
  have r': "normalizePathBeforeResolution exampleHost ''~/notes/$HOME'' = Returns ''/home/u/notes/home/u''"
    by code_simp
  have d': "\<not> hasDefinedReference exampleHost ''/home/u/notes/home/u''" by code_simp
  have n': "\<not> startsWithHomePath ''/home/u/notes/home/u''" by code_simp
  from C8_idempotent_without_defined_reference[OF r d n, THEN conjunct1]
    C8_idempotent_without_defined_reference[OF r' d' n', THEN conjunct1] r r'
  show ?thesis by (intro conjI)
qed

section \<open>C7: the reference forms\<close>













subsection \<open>Where the expressions match\<close>















subsection \<open>A replacement over a concatenation\<close>




declare gsub.simps [simp del]









subsection \<open>The four replacements, piece by piece\<close>

















end
